theory Spec2Isabelle
  imports Complex_Main "HOL-Library.Word"
begin

section \<open>JavaScript values\<close>

text \<open>
  The run-time values the compiled transforms work on.  A number is a rational,
  NaN or an infinity (\<open>Inf True\<close> the positive one); the rounding of doubles
  and negative zero are outside the model, and the conversions between
  numbers and text are parameters, see \<open>host\<close> below.  A \<open>Buffer\<close> is its byte sequence and a \<open>Date\<close> its instant in
  milliseconds (\<open>None\<close> for an invalid date).  An object is a plain object
  (its prototype is \<open>Object.prototype\<close>), given by the list of its own
  enumerable string-keyed properties in insertion order (JavaScript enumerates
  keys that are array indices first; field and annotation names are not).
  A \<open>Set\<close> is the list of its members in insertion order.  \<open>JBuiltin\<close> is one
  of the members that every plain object inherits from \<open>Object.prototype\<close>,
  named by its path: the functions \<open>Object.prototype.toString\<close>,
  \<open>Object.prototype.constructor\<close> (that is \<open>Object\<close>) and so on, and
  \<open>Object.prototype\<close> itself, which is what \<open>__proto__\<close> reads.  Other
  functions and symbols are outside the model.  Values are trees: the identity
  of objects is not represented, and two values handed to a transform are
  taken to be separate objects (as a value and the result of reading back its
  written form are).
\<close>

datatype jsnum = Fin rat | NaN | Inf bool

datatype jsval =
    JUndefined
  | JNull
  | JBool bool
  | JNum jsnum
  | JStr string
  | JBuf "8 word list"
  | JDate "int option"
  | JArr "jsval list"
  | JObj "(string \<times> jsval) list"
  | JSet "jsval list"
  | JBuiltin string

text \<open>An \<open>Error\<close> object: its message template and the interpolated values.\<close>

datatype js_error = MkError string "jsval list"

text \<open>
  What a \<open>throw\<close> or a failing built-in raises.  \<open>Unmodelled\<close> is no exception
  of the program: it marks the situations whose outcome the model does not
  have (a loop bound read from an object's own \<open>length\<close> property that is a
  string, an object or positive infinity; a method of a built-in prototype
  other than \<open>Object.prototype\<close>; an object whose prototype has been replaced).
\<close>

datatype exn = TypeError | RangeError | Thrown js_error | Unmodelled

text \<open>Decimal rendering of a counter or an index, \<open>Number.prototype.toString\<close> on a natural number.\<close>

definition digit_char :: "nat \<Rightarrow> char" where
  "digit_char d = ''0123456789'' ! d"

function show_nat :: "nat \<Rightarrow> string" where
  "show_nat n = (if n < 10 then [digit_char n] else show_nat (n div 10) @ [digit_char (n mod 10)])"
  by pat_completeness auto
termination
  by (relation "measure id") auto

declare show_nat.simps [simp del]

subsection \<open>What a plain object inherits\<close>

text \<open>
  The string-keyed members of \<open>Object.prototype\<close>.  Reading \<open>obj[k]\<close> on a plain
  object that has no own property \<open>k\<close> finds one of them, or nothing
  (\<open>undefined\<close>).
\<close>

definition object_prototype :: "string list" where
  "object_prototype =
     [''constructor'', ''__defineGetter__'', ''__defineSetter__'', ''hasOwnProperty'',
      ''__lookupGetter__'', ''__lookupSetter__'', ''isPrototypeOf'', ''propertyIsEnumerable'',
      ''toString'', ''valueOf'', ''__proto__'', ''toLocaleString'']"

definition inherited :: "string \<Rightarrow> jsval" where
  "inherited k =
     (if k = ''__proto__'' then JBuiltin ''Object.prototype''
      else if k \<in> set object_prototype then JBuiltin (''Object.prototype.'' @ k)
      else JUndefined)"

section \<open>Update expressions: Namespace and Writer (writer.ts)\<close>

text \<open>
  \<open>Writer.Namespace\<close>.  The three tables are declared without an initialiser
  (\<open>values\<close> is a keyword, hence \<open>values_tbl\<close>),
  so they are \<open>undefined\<close> (\<open>None\<close>) until the first alias is added; then each is
  a plain object \<open>{}\<close>, given here by its own properties.  The two
  counters are JavaScript numbers that only ever grow by one from zero; they
  are modelled as naturals (a compilation stays far below \<open>2^53\<close> aliases).
\<close>

record Namespace =
  aliases :: "(string \<rightharpoonup> string) option"
  aliasReverseLookup :: "(string \<rightharpoonup> string) option"
  values_tbl :: "(string \<rightharpoonup> jsval) option"
  namesCounter :: nat
  valuesCounter :: nat

definition Namespace_new :: Namespace where
  "Namespace_new = \<lparr> aliases = None, aliasReverseLookup = None, values_tbl = None,
                      namesCounter = 0, valuesCounter = 0 \<rparr>"

definition newNameAlias :: "Namespace \<Rightarrow> string \<times> Namespace" where
  "newNameAlias ns =
     (let c = namesCounter ns + 1 in (CHR ''#'' # show_nat c, ns\<lparr>namesCounter := c\<rparr>))"

definition newValueId :: "Namespace \<Rightarrow> string \<times> Namespace" where
  "newValueId ns =
     (let c = valuesCounter ns + 1 in (CHR '':'' # show_nat c, ns\<lparr>valuesCounter := c\<rparr>))"

definition addValue :: "Namespace \<Rightarrow> jsval \<Rightarrow> string \<times> Namespace" where
  "addValue ns v =
     (case newValueId ns of (ident, ns1) \<Rightarrow>
        (let vs = (case values_tbl ns1 of None \<Rightarrow> Map.empty | Some m \<Rightarrow> m)
         in (ident, ns1\<lparr>values_tbl := Some (vs(ident \<mapsto> v))\<rparr>)))"

text \<open>
  \<open>addName\<close>: when \<open>aliases\<close> is unset both name tables are created.  Reading
  \<open>aliasReverseLookup[name]\<close> on a table that is still \<open>undefined\<close> (possible
  only if the public fields were set from outside) is a \<open>TypeError\<close>.  The
  table is a plain object, so the read also finds what the table inherits:
  for such a name \<open>alias\<close> is not \<open>undefined\<close>, nothing is allocated, and the
  inherited value is returned.
\<close>

definition addName :: "Namespace \<Rightarrow> string \<Rightarrow> exn + jsval \<times> Namespace" where
  "addName ns name =
     (let ns1 = (case aliases ns of
                   None \<Rightarrow> ns\<lparr>aliases := Some Map.empty, aliasReverseLookup := Some Map.empty\<rparr>
                 | Some _ \<Rightarrow> ns)
      in case aliasReverseLookup ns1 of
           None \<Rightarrow> Inl TypeError
         | Some rl \<Rightarrow>
            (let alias = (case rl name of Some a \<Rightarrow> JStr a | None \<Rightarrow> inherited name)
             in if alias = JUndefined then
                  (case newNameAlias ns1 of (a, ns2) \<Rightarrow>
                     (let al = (case aliases ns2 of None \<Rightarrow> Map.empty | Some m \<Rightarrow> m)
                      in Inr (JStr a, ns2\<lparr>aliases := Some (al(a \<mapsto> name)),
                                           aliasReverseLookup := Some (rl(name \<mapsto> a))\<rparr>)))
                else Inr (alias, ns1)))"

text \<open>
  \<open>Writer\<close>: the token buffer and the namespace it allocates from.  The buffer
  is declared \<open>string[]\<close>; at run time it holds whatever \<open>addName\<close> returned.
\<close>

record Writer =
  tokens :: "jsval list"
  namespace :: Namespace

definition Writer_new :: Writer where
  "Writer_new = \<lparr> tokens = [], namespace = Namespace_new \<rparr>"

definition writeToken :: "Writer \<Rightarrow> jsval \<Rightarrow> Writer" where
  "writeToken w t = w\<lparr>tokens := tokens w @ [t]\<rparr>"

definition writeName :: "Writer \<Rightarrow> string \<Rightarrow> exn + Writer" where
  "writeName w name =
     (case addName (namespace w) name of
        Inl e \<Rightarrow> Inl e
      | Inr (alias, ns) \<Rightarrow> Inr (writeToken (w\<lparr>namespace := ns\<rparr>) alias))"

definition writeValue :: "Writer \<Rightarrow> jsval \<Rightarrow> Writer" where
  "writeValue w v =
     (case addValue (namespace w) v of (ident, ns) \<Rightarrow> writeToken (w\<lparr>namespace := ns\<rparr>) (JStr ident))"

text \<open>
  \<open>toExpression\<close>: \<open>tokens.join('')\<close> and the two tables.  The text that \<open>join\<close>
  makes of a token that is not a string is not modelled.
\<close>

definition toExpression :: "Writer \<Rightarrow> exn + string \<times> (string \<rightharpoonup> string) option \<times> (string \<rightharpoonup> jsval) option" where
  "toExpression w =
     (if \<forall>t \<in> set (tokens w). case t of JStr _ \<Rightarrow> True | _ \<Rightarrow> False
      then Inr (concat (map (\<lambda>t. case t of JStr s \<Rightarrow> s | _ \<Rightarrow> []) (tokens w)),
                aliases (namespace w), values_tbl (namespace w))
      else Inl Unmodelled)"

text \<open>
  One compilation is a sequence of calls on one shared writer: the clauses
  synthesise themselves by calling \<open>writeToken\<close>, \<open>writeName\<close> and \<open>writeValue\<close>.
\<close>

datatype wop = WriteToken string | WriteName string | WriteValue jsval

fun write_op :: "Writer \<Rightarrow> wop \<Rightarrow> exn + Writer" where
  "write_op w (WriteToken t) = Inr (writeToken w (JStr t))"
| "write_op w (WriteName n) = writeName w n"
| "write_op w (WriteValue v) = Inr (writeValue w v)"

fun writeAll :: "Writer \<Rightarrow> wop list \<Rightarrow> exn + Writer" where
  "writeAll w [] = Inr w"
| "writeAll w (c # cs) = (case write_op w c of Inl e \<Rightarrow> Inl e | Inr w' \<Rightarrow> writeAll w' cs)"

text \<open>Vocabulary for stating the alias properties.\<close>

fun names_of :: "wop list \<Rightarrow> string list" where
  "names_of [] = []"
| "names_of (WriteName n # cs) = n # names_of cs"
| "names_of (c # cs) = names_of cs"

fun values_of :: "wop list \<Rightarrow> jsval list" where
  "values_of [] = []"
| "values_of (WriteValue v # cs) = v # values_of cs"
| "values_of (c # cs) = values_of cs"

text \<open>The tokens written by the \<open>writeValue\<close> calls, in order.\<close>

fun value_tokens :: "wop list \<Rightarrow> jsval list \<Rightarrow> jsval list" where
  "value_tokens (WriteValue v # cs) (t # ts) = t # value_tokens cs ts"
| "value_tokens (c # cs) (t # ts) = value_tokens cs ts"
| "value_tokens _ _ = []"

text \<open>
  The field paths that get an alias, in the order in which they are first
  requested: a name that the lookup table inherits never gets one.
\<close>

fun first_requests :: "string list \<Rightarrow> string list \<Rightarrow> string list" where
  "first_requests seen [] = seen"
| "first_requests seen (n # ns) =
     first_requests (if n \<in> set seen \<or> n \<in> set object_prototype then seen else seen @ [n]) ns"

fun index_of :: "'a \<Rightarrow> 'a list \<Rightarrow> nat" where
  "index_of x [] = 0"
| "index_of x (y # ys) = (if x = y then 0 else Suc (index_of x ys))"

text \<open>The tokens a call sequence produces, given the names aliased so far and the value counter.\<close>

fun expected :: "string list \<Rightarrow> nat \<Rightarrow> wop list \<Rightarrow> jsval list" where
  "expected seen k [] = []"
| "expected seen k (WriteToken t # cs) = JStr t # expected seen k cs"
| "expected seen k (WriteName n # cs) =
     (if n \<in> set object_prototype then inherited n # expected seen k cs
      else
        (let seen' = (if n \<in> set seen then seen else seen @ [n])
         in JStr (CHR ''#'' # show_nat (Suc (index_of n seen'))) # expected seen' k cs))"
| "expected seen k (WriteValue v # cs) = JStr (CHR '':'' # show_nat (Suc k)) # expected seen (Suc k) cs"

text \<open>The invariant of a namespace that has aliased the names \<open>seen\<close> and \<open>k\<close> values.\<close>

definition ns_wf :: "Namespace \<Rightarrow> string list \<Rightarrow> nat \<Rightarrow> bool" where
  "ns_wf ns seen k \<longleftrightarrow>
     distinct seen \<and> set seen \<inter> set object_prototype = {} \<and>
     namesCounter ns = length seen \<and> valuesCounter ns = k \<and>
     (case aliases ns of
        None \<Rightarrow> seen = []
      | Some al \<Rightarrow> (\<exists>rl. aliasReverseLookup ns = Some rl \<and>
           (\<forall>n. rl n = (if n \<in> set seen then Some (CHR ''#'' # show_nat (Suc (index_of n seen))) else None))))"


subsection \<open>Alias allocation\<close>

lemma digit_char_inj: "a < 10 \<Longrightarrow> b < 10 \<Longrightarrow> digit_char a = digit_char b \<Longrightarrow> a = b"
proof -
  assume a: "a < 10" and b: "b < 10" and e: "digit_char a = digit_char b"
  have d: "distinct ''0123456789''" by simp
  have "a < length ''0123456789''" "b < length ''0123456789''" using a b by simp_all
  with d e show "a = b" unfolding digit_char_def by (simp only: nth_eq_iff_index_eq)
qed

lemma show_nat_nonempty: "show_nat n \<noteq> []"
  by (subst show_nat.simps) simp

lemma show_nat_last: "last (show_nat n) = digit_char (n mod 10)"
  by (subst show_nat.simps) simp

lemma show_nat_butlast: "butlast (show_nat n) = (if n < 10 then [] else show_nat (n div 10))"
  by (subst show_nat.simps) simp

lemma show_nat_inj: "show_nat m = show_nat n \<Longrightarrow> m = n"
proof (induction m arbitrary: n rule: less_induct)
  case (less m)
  have l: "m mod 10 = n mod 10"
    using less.prems show_nat_last[of m] show_nat_last[of n] digit_char_inj[of "m mod 10" "n mod 10"] by simp
  have b: "butlast (show_nat m) = butlast (show_nat n)" using less.prems by simp
  show ?case
  proof (cases "m < 10")
    case True
    then have "n < 10" using b show_nat_nonempty[of "n div 10"] by (auto simp: show_nat_butlast split: if_splits)
    with True l show ?thesis by simp
  next
    case False
    then have n: "\<not> n < 10" using b show_nat_nonempty[of "m div 10"] by (auto simp: show_nat_butlast split: if_splits)
    with False b have "show_nat (m div 10) = show_nat (n div 10)" by (simp add: show_nat_butlast)
    moreover have "m div 10 < m" using False by simp
    ultimately have "m div 10 = n div 10" using less.IH by blast
    with l show ?thesis by (metis div_mult_mod_eq)
  qed
qed

lemma show_nat_digit: "n < 10 \<Longrightarrow> show_nat n = [digit_char n]"
  by (subst show_nat.simps) simp

lemma index_of_append_in: "x \<in> set xs \<Longrightarrow> index_of x (xs @ ys) = index_of x xs"
  by (induction xs) auto

lemma index_of_append_new: "x \<notin> set xs \<Longrightarrow> index_of x (xs @ [x]) = length xs"
  by (induction xs) auto

lemma index_of_less: "x \<in> set xs \<Longrightarrow> index_of x xs < length xs"
  by (induction xs) auto

lemma index_of_inj: "x \<in> set xs \<Longrightarrow> y \<in> set xs \<Longrightarrow> index_of x xs = index_of y xs \<Longrightarrow> x = y"
  by (induction xs) (auto split: if_splits)

lemma inherited_undefined: "inherited n = JUndefined \<longleftrightarrow> n \<notin> set object_prototype"
  by (auto simp: inherited_def object_prototype_def)

lemma ns_wf_new: "ns_wf Namespace_new [] 0"
  by (simp add: ns_wf_def Namespace_new_def)

lemma addValue_wf:
  "ns_wf ns seen k \<Longrightarrow> fst (addValue ns v) = CHR '':'' # show_nat (Suc k) \<and> ns_wf (snd (addValue ns v)) seen (Suc k)"
  by (auto simp: ns_wf_def addValue_def newValueId_def Let_def split: option.splits)

text \<open>A name that the table inherits: no alias, the inherited value is the result.\<close>

lemma addName_inherited:
  assumes "ns_wf ns seen k" "n \<in> set object_prototype"
  shows "\<exists>ns'. addName ns n = Inr (inherited n, ns') \<and> ns_wf ns' seen k"
proof (cases "aliases ns")
  case None
  with assms have s: "seen = []" by (simp add: ns_wf_def)
  show ?thesis using None s assms inherited_undefined[of n]
    by (simp add: addName_def ns_wf_def Let_def)
next
  case (Some al)
  with assms obtain rl where rl: "aliasReverseLookup ns = Some rl"
    and rln: "\<And>m. rl m = (if m \<in> set seen then Some (CHR ''#'' # show_nat (Suc (index_of m seen))) else None)"
    by (auto simp: ns_wf_def)
  have "n \<notin> set seen" using assms by (auto simp: ns_wf_def)
  then have "rl n = None" using rln by simp
  then show ?thesis using Some rl assms inherited_undefined[of n]
    by (simp add: addName_def Let_def)
qed

text \<open>Any other name: the alias of its rank among the names aliased.\<close>

lemma addName_wf:
  assumes "ns_wf ns seen k" "n \<notin> set object_prototype"
  shows "\<exists>ns'. addName ns n = Inr (JStr (CHR ''#'' # show_nat (Suc (index_of n (if n \<in> set seen then seen else seen @ [n])))), ns')
     \<and> ns_wf ns' (if n \<in> set seen then seen else seen @ [n]) k"
proof (cases "aliases ns")
  case None
  with assms have s: "seen = []" by (simp add: ns_wf_def)
  show ?thesis using None s assms inherited_undefined[of n]
    by (simp add: addName_def newNameAlias_def ns_wf_def Let_def)
next
  case (Some al)
  with assms obtain rl where rl: "aliasReverseLookup ns = Some rl"
    and rln: "\<And>m. rl m = (if m \<in> set seen then Some (CHR ''#'' # show_nat (Suc (index_of m seen))) else None)"
    by (auto simp: ns_wf_def)
  show ?thesis
  proof (cases "n \<in> set seen")
    case True
    then show ?thesis using Some rl rln[of n] assms by (simp add: addName_def Let_def)
  next
    case False
    have c: "namesCounter ns = length seen" using assms by (simp add: ns_wf_def)
    have d: "distinct seen" using assms by (simp add: ns_wf_def)
    have p: "set seen \<inter> set object_prototype = {}" using assms by (simp add: ns_wf_def)
    have v: "valuesCounter ns = k" using assms by (simp add: ns_wf_def)
    have u: "inherited n = JUndefined" using assms inherited_undefined[of n] by simp
    show ?thesis using False Some rl rln c d v p u assms(2)
      by (auto simp: addName_def newNameAlias_def ns_wf_def Let_def index_of_append_new index_of_append_in)
  qed
qed

lemma writeAll_expected:
  "ns_wf (namespace w) seen k \<Longrightarrow>
   \<exists>w'. writeAll w cs = Inr w' \<and> tokens w' = tokens w @ expected seen k cs
     \<and> ns_wf (namespace w') (first_requests seen (names_of cs)) (k + length (values_of cs))"
proof (induction cs arbitrary: w seen k)
  case Nil
  then show ?case by simp
next
  case (Cons c cs)
  show ?case
  proof (cases c)
    case (WriteToken t)
    have "ns_wf (namespace (writeToken w (JStr t))) seen k" using Cons.prems by (simp add: writeToken_def)
    from Cons.IH[OF this] show ?thesis using WriteToken by (auto simp: writeToken_def)
  next
    case (WriteName n)
    show ?thesis
    proof (cases "n \<in> set object_prototype")
      case True
      from addName_inherited[OF Cons.prems True] obtain ns' where
        a: "addName (namespace w) n = Inr (inherited n, ns')" and wf: "ns_wf ns' seen k" by blast
      have "ns_wf (namespace (writeToken (w\<lparr>namespace := ns'\<rparr>) (inherited n))) seen k"
        using wf by (simp add: writeToken_def)
      from Cons.IH[OF this] show ?thesis using WriteName a True
        by (auto simp: writeName_def writeToken_def)
    next
      case False
      let ?seen = "if n \<in> set seen then seen else seen @ [n]"
      let ?tok = "JStr (CHR ''#'' # show_nat (Suc (index_of n ?seen)))"
      from addName_wf[OF Cons.prems False] obtain ns' where
        a: "addName (namespace w) n = Inr (?tok, ns')" and wf: "ns_wf ns' ?seen k" by blast
      have "ns_wf (namespace (writeToken (w\<lparr>namespace := ns'\<rparr>) ?tok)) ?seen k" using wf by (simp add: writeToken_def)
      from Cons.IH[OF this] show ?thesis using WriteName a False
        by (auto simp: writeName_def writeToken_def Let_def)
    qed
  next
    case (WriteValue v)
    from addValue_wf[OF Cons.prems, of v] have
      a: "fst (addValue (namespace w) v) = CHR '':'' # show_nat (Suc k)"
      and wf: "ns_wf (snd (addValue (namespace w) v)) seen (Suc k)" by auto
    have "ns_wf (namespace (writeValue w v)) seen (Suc k)" using wf
      by (cases "addValue (namespace w) v") (simp add: writeValue_def writeToken_def)
    from Cons.IH[OF this] show ?thesis using WriteValue a
      by (cases "addValue (namespace w) v") (auto simp: writeValue_def writeToken_def)
  qed
qed

lemma expected_length: "length (expected seen k cs) = length cs"
  by (induction seen k cs rule: expected.induct) (auto simp: Let_def)

lemma first_requests_prefix: "\<exists>ys. first_requests seen ns = seen @ ys"
  by (induction seen ns rule: first_requests.induct) (auto split: if_splits)

lemma first_requests_set:
  "set (first_requests seen ns) = set seen \<union> (set ns - set object_prototype)"
  by (induction seen ns rule: first_requests.induct) (auto split: if_splits)

lemma index_of_first_requests: "n \<in> set seen \<Longrightarrow> index_of n (first_requests seen ns) = index_of n seen"
  using first_requests_prefix[of seen ns] by (auto simp: index_of_append_in)

lemma expected_name:
  "i < length cs \<Longrightarrow> cs ! i = WriteName n \<Longrightarrow> n \<notin> set object_prototype \<Longrightarrow>
   expected seen k cs ! i = JStr (CHR ''#'' # show_nat (Suc (index_of n (first_requests seen (names_of cs)))))"
proof (induction seen k cs arbitrary: i rule: expected.induct)
  case (3 seen k m cs)
  show ?case
  proof (cases i)
    case 0
    then have "m = n" using 3 by simp
    then show ?thesis using 0 3(5) by (auto simp: Let_def index_of_first_requests)
  next
    case (Suc j)
    then show ?thesis using 3 by (auto simp: Let_def)
  qed
qed (auto simp: nth_Cons split: nat.splits)

lemma expected_inherited:
  "i < length cs \<Longrightarrow> cs ! i = WriteName n \<Longrightarrow> n \<in> set object_prototype \<Longrightarrow>
   expected seen k cs ! i = inherited n"
proof (induction seen k cs arbitrary: i rule: expected.induct)
  case (3 seen k m cs)
  show ?case
  proof (cases i)
    case 0
    then have "m = n" using 3 by simp
    then show ?thesis using 0 3(5) by simp
  next
    case (Suc j)
    then show ?thesis using 3 by (auto simp: Let_def)
  qed
qed (auto simp: nth_Cons split: nat.splits)

lemma expected_values:
  "value_tokens cs (expected seen k cs) = map (\<lambda>j. JStr (CHR '':'' # show_nat j)) [Suc k ..< Suc k + length (values_of cs)]"
proof (induction seen k cs rule: expected.induct)
  case (4 seen k v cs)
  have "[Suc k ..< Suc k + Suc (length (values_of cs))] = Suc k # [Suc (Suc k) ..< Suc (Suc k) + length (values_of cs)]"
    by (subst upt_rec) simp
  with 4 show ?case by simp
qed (auto simp: Let_def)

lemma names_of_nth: "i < length cs \<Longrightarrow> cs ! i = WriteName n \<Longrightarrow> n \<in> set (names_of cs)"
proof (induction cs arbitrary: i)
  case Nil
  then show ?case by simp
next
  case (Cons c cs)
  then show ?case by (cases i; cases c) auto
qed

text \<open>
  What one compilation writes (any sequence of writer calls on a fresh
  writer): every call succeeds and writes one token.  A request for a field
  path that \<open>Object.prototype\<close> does not define gets the token \<open>#k\<close>, \<open>k\<close> the
  rank of the path among such paths in order of first request, so two such
  requests get the same token exactly when they name the same path.  A request
  for a name that \<open>Object.prototype\<close> defines writes the inherited value.
\<close>

lemma writeAll_name_tokens:
  "\<exists>w. writeAll Writer_new cs = Inr w \<and> length (tokens w) = length cs \<and>
     (\<forall>i<length cs. \<forall>n. cs ! i = WriteName n \<longrightarrow>
        tokens w ! i =
          (if n \<in> set object_prototype then inherited n
           else JStr (CHR ''#'' # show_nat (Suc (index_of n (first_requests [] (names_of cs))))))) \<and>
     (\<forall>i<length cs. \<forall>j<length cs. \<forall>n m. cs ! i = WriteName n \<longrightarrow> cs ! j = WriteName m \<longrightarrow>
        n \<notin> set object_prototype \<longrightarrow> m \<notin> set object_prototype \<longrightarrow>
        (tokens w ! i = tokens w ! j \<longleftrightarrow> n = m))"
proof -
  have "ns_wf (namespace Writer_new) [] 0" by (simp add: Writer_new_def ns_wf_new)
  from writeAll_expected[OF this, of cs] obtain w where
    w: "writeAll Writer_new cs = Inr w" and t: "tokens w = expected [] 0 cs"
    by (auto simp: Writer_new_def)
  let ?fr = "first_requests [] (names_of cs)"
  have tok: "tokens w ! i = JStr (CHR ''#'' # show_nat (Suc (index_of n ?fr)))"
    if "i < length cs" "cs ! i = WriteName n" "n \<notin> set object_prototype" for i n
    using that t expected_name[of i cs n "[]" 0] by simp
  have tokp: "tokens w ! i = inherited n"
    if "i < length cs" "cs ! i = WriteName n" "n \<in> set object_prototype" for i n
    using that t expected_inherited[of i cs n "[]" 0] by simp
  have mem: "n \<in> set ?fr" if "i < length cs" "cs ! i = WriteName n" "n \<notin> set object_prototype" for i n
  proof -
    have "n \<in> set (names_of cs)" using that(1,2) by (rule names_of_nth)
    then show ?thesis using that(3) by (simp add: first_requests_set)
  qed
  have iff: "tokens w ! i = tokens w ! j \<longleftrightarrow> n = m"
    if "i < length cs" "j < length cs" "cs ! i = WriteName n" "cs ! j = WriteName m"
       "n \<notin> set object_prototype" "m \<notin> set object_prototype" for i j n m
  proof
    assume "tokens w ! i = tokens w ! j"
    then have "show_nat (Suc (index_of n ?fr)) = show_nat (Suc (index_of m ?fr))"
      using tok[OF that(1,3,5)] tok[OF that(2,4,6)] by simp
    then have "index_of n ?fr = index_of m ?fr" using show_nat_inj by blast
    then show "n = m" using mem[OF that(1,3,5)] mem[OF that(2,4,6)] index_of_inj by metis
  next
    assume "n = m"
    then show "tokens w ! i = tokens w ! j" using tok[OF that(1,3,5)] tok[OF that(2,4,6)] by simp
  qed
  have "length (tokens w) = length cs" using t by (simp add: expected_length)
  with w tok tokp iff show ?thesis by auto
qed

text \<open>
  C6.  A compilation that requests an alias for the field path \<open>constructor\<close>,
  then for \<open>id\<close>, then for \<open>constructor\<close> again: \<open>constructor\<close> gets no \<open>#\<close>
  token, the function that the lookup table inherits under that name is
  written in its place both times, the path is missing from the table of
  attribute names, and the first token \<open>#1\<close> goes to \<open>id\<close>.
\<close>

theorem addName_failing_input:
  "\<exists>w. writeAll Writer_new [WriteName ''constructor'', WriteName ''id'', WriteName ''constructor''] = Inr w \<and>
       tokens w = [JBuiltin ''Object.prototype.constructor'', JStr ''#1'',
                   JBuiltin ''Object.prototype.constructor''] \<and>
       aliases (namespace w) = Some [''#1'' \<mapsto> ''id'']"
  by (simp add: Writer_new_def Namespace_new_def writeName_def addName_def writeToken_def
      newNameAlias_def inherited_def object_prototype_def Let_def show_nat_digit digit_char_def)

text \<open>
  C7.  In one compilation the \<open>writeValue\<close> calls receive, in order, the tokens
  \<open>:1\<close>, \<open>:2\<close>, ..., \<open>:N\<close> where \<open>N\<close> is the number of literal operands; these are
  pairwise distinct whatever the operands are (nothing is deduplicated).
\<close>

theorem value_alias_fresh:
  "\<exists>w. writeAll Writer_new cs = Inr w \<and>
       value_tokens cs (tokens w) = map (\<lambda>j. JStr (CHR '':'' # show_nat j)) [1 ..< Suc (length (values_of cs))] \<and>
       length (value_tokens cs (tokens w)) = length (values_of cs) \<and>
       distinct (value_tokens cs (tokens w))"
proof -
  have "ns_wf (namespace Writer_new) [] 0" by (simp add: Writer_new_def ns_wf_new)
  from writeAll_expected[OF this, of cs] obtain w where
    w: "writeAll Writer_new cs = Inr w" and t: "tokens w = expected [] 0 cs"
    by (auto simp: Writer_new_def)
  have v: "value_tokens cs (tokens w) = map (\<lambda>j. JStr (CHR '':'' # show_nat j)) [1 ..< Suc (length (values_of cs))]"
    using t expected_values[of cs "[]" 0] by simp
  have "inj_on (\<lambda>j. JStr (CHR '':'' # show_nat j)) A" for A
    by (rule inj_onI) (simp add: show_nat_inj)
  then have d: "distinct (value_tokens cs (tokens w))"
    unfolding v by (simp only: distinct_map distinct_upt simp_thms)
  have l: "length (value_tokens cs (tokens w)) = length (values_of cs)"
    unfolding v by (simp del: upt_Suc)
  from w v l d show ?thesis by blast
qed

theorem value_alias_fresh_witness:
  "\<exists>w. writeAll Writer_new [WriteName ''id'', WriteToken ''='', WriteValue (JStr ''value''), WriteToken '', '',
                             WriteName ''id'', WriteToken ''='', WriteValue (JStr ''value'')] = Inr w \<and>
       value_tokens [WriteName ''id'', WriteToken ''='', WriteValue (JStr ''value''), WriteToken '', '',
                     WriteName ''id'', WriteToken ''='', WriteValue (JStr ''value'')] (tokens w) =
         [JStr '':1'', JStr '':2'']"
proof -
  let ?cs = "[WriteName ''id'', WriteToken ''='', WriteValue (JStr ''value''), WriteToken '', '',
              WriteName ''id'', WriteToken ''='', WriteValue (JStr ''value'')]"
  have u: "[1 ..< Suc (length (values_of ?cs))] = [1, 2]" by (simp add: upt_rec)
  from value_alias_fresh[of ?cs] obtain w where w: "writeAll Writer_new ?cs = Inr w"
    and t: "value_tokens ?cs (tokens w) = map (\<lambda>j. JStr (CHR '':'' # show_nat j)) [1 ..< Suc (length (values_of ?cs))]" by blast
  have "value_tokens ?cs (tokens w) = [JStr '':1'', JStr '':2'']"
    unfolding t u by (simp add: show_nat_digit digit_char_def)
  with w show ?thesis by blast
qed

section \<open>JavaScript built-ins\<close>

definition js_typeof :: "jsval \<Rightarrow> string" where
  "js_typeof v = (case v of
      JUndefined \<Rightarrow> ''undefined''
    | JBool _ \<Rightarrow> ''boolean''
    | JNum _ \<Rightarrow> ''number''
    | JStr _ \<Rightarrow> ''string''
    | JBuiltin n \<Rightarrow> (if n = ''Object.prototype'' then ''object'' else ''function'')
    | _ \<Rightarrow> ''object'')"

definition isArray :: "jsval \<Rightarrow> bool" where
  "isArray v = (case v of JArr _ \<Rightarrow> True | _ \<Rightarrow> False)"

definition elems :: "jsval \<Rightarrow> jsval list" where
  "elems v = (case v of JArr xs \<Rightarrow> xs | _ \<Rightarrow> [])"


text \<open>
  Own enumerable properties: \<open>Object.entries\<close>, and the definition of an own
  property, as an object literal \<open>{[k]: v}\<close> and object spread do it (\<open>obj_set\<close>).
\<close>

fun indexed :: "nat \<Rightarrow> 'a list \<Rightarrow> (string \<times> 'a) list" where
  "indexed i [] = []"
| "indexed i (x # xs) = (show_nat i, x) # indexed (Suc i) xs"

fun obj_set :: "(string \<times> 'a) list \<Rightarrow> string \<Rightarrow> 'a \<Rightarrow> (string \<times> 'a) list" where
  "obj_set [] k v = [(k, v)]"
| "obj_set ((k', v') # es) k v = (if k' = k then (k, v) # es else (k', v') # obj_set es k v)"

definition obj_get :: "(string \<times> jsval) list \<Rightarrow> string \<Rightarrow> jsval" where
  "obj_get es k = (case map_of es k of None \<Rightarrow> JUndefined | Some v \<Rightarrow> v)"

definition obj_assign :: "(string \<times> 'a) list \<Rightarrow> (string \<times> 'a) list \<Rightarrow> (string \<times> 'a) list" where
  "obj_assign tgt src = fold (\<lambda>(k, v) acc. obj_set acc k v) src tgt"

definition own_entries :: "jsval \<Rightarrow> exn + (string \<times> jsval) list" where
  "own_entries v = (case v of
      JUndefined \<Rightarrow> Inl TypeError
    | JNull \<Rightarrow> Inl TypeError
    | JObj es \<Rightarrow> Inr es
    | JArr xs \<Rightarrow> Inr (indexed 0 xs)
    | JStr s \<Rightarrow> Inr (indexed 0 (map (\<lambda>c. JStr [c]) s))
    | JBuf bs \<Rightarrow> Inr (indexed 0 (map (\<lambda>b. JNum (Fin (of_nat (unat b)))) bs))
    | _ \<Rightarrow> Inr [])"


text \<open>
  The assignment \<open>obj[k] = v\<close> on a plain object.  It defines or overwrites the
  own property \<open>k\<close>, except for the name \<open>__proto__\<close> on an object that does
  not own it: that is the accessor of \<open>Object.prototype\<close>, which replaces the
  prototype when \<open>v\<close> is an object or \<open>null\<close> (an object with another prototype
  is not modelled) and does nothing for any other \<open>v\<close>.  No own property is
  made in either case.
\<close>

definition is_primitive :: "jsval \<Rightarrow> bool" where
  "is_primitive v = (case v of JUndefined \<Rightarrow> True | JNull \<Rightarrow> True | JBool _ \<Rightarrow> True
                      | JNum _ \<Rightarrow> True | JStr _ \<Rightarrow> True | _ \<Rightarrow> False)"

definition assign_prop :: "(string \<times> jsval) list \<Rightarrow> string \<Rightarrow> jsval \<Rightarrow> exn + (string \<times> jsval) list" where
  "assign_prop es k v =
     (if k = ''__proto__'' \<and> map_of es k = None then
        (if is_primitive v \<and> v \<noteq> JNull then Inr es else Inl Unmodelled)
      else Inr (obj_set es k v))"

text \<open>\<open>for (const [k, v] of entries) obj[k] = v\<close>.\<close>

fun assign_all :: "(string \<times> jsval) list \<Rightarrow> (string \<times> jsval) list \<Rightarrow> exn + (string \<times> jsval) list" where
  "assign_all tgt [] = Inr tgt"
| "assign_all tgt ((k, v) # rest) =
     (case assign_prop tgt k v of Inl e \<Rightarrow> Inl e | Inr tgt' \<Rightarrow> assign_all tgt' rest)"


section \<open>Annotation metadata (metadata.ts)\<close>

text \<open>A measure for the recursion on values (a buffer counts its bytes).\<close>

fun weight :: "jsval \<Rightarrow> nat" where
  "weight (JArr xs) = Suc (sum_list (map (\<lambda>x. Suc (weight x)) xs))"
| "weight (JObj es) = Suc (sum_list (map (\<lambda>(k, v). Suc (weight v)) es))"
| "weight (JBuf bs) = Suc (length bs)"
| "weight _ = 0"

definition entries_weight :: "(string \<times> jsval) list \<Rightarrow> nat" where
  "entries_weight es = sum_list (map (\<lambda>(k, v). Suc (weight v)) es)"

lemma entries_weight_indexed: "entries_weight (indexed i xs) = sum_list (map (\<lambda>x. Suc (weight x)) xs)"
  by (induction xs arbitrary: i) (auto simp: entries_weight_def)

lemma own_entries_weight:
  "entries_weight bes < Suc (weight b)" if "js_typeof b = ''object''" "own_entries b = Inr bes"
proof (cases b)
  case (JObj es)
  then show ?thesis using that by (simp add: own_entries_def entries_weight_def)
next
  case (JArr xs)
  then show ?thesis using that by (auto simp: own_entries_def entries_weight_indexed)
next
  case (JBuf bs)
  then show ?thesis using that by (auto simp: own_entries_def entries_weight_indexed o_def sum_list_triv)
qed (use that in \<open>auto simp: own_entries_def js_typeof_def entries_weight_def\<close>)
















section \<open>Shapes\<close>

text \<open>
  The Shape AST.  An enum is its mapping of names to string values, a struct
  its name and its fields as \<open>Object.entries\<close> enumerates them (declaration
  order), a function its parameters and return shape.  Shapes are finite trees:
  a struct that refers to itself is outside the model, and so is the
  memoisation of compiled transforms, which does not change what they compute.
  \<open>Decorated vs s\<close> is the proxy \<open>Meta.apply\<close> returns for \<open>s\<close> and metadata whose
  \<open>validator\<close> array is \<open>vs\<close>: it answers every other property as \<open>s\<close> does, so
  the shape guards and the visitors see \<open>s\<close>.
\<close>

type_synonym validator = "jsval \<Rightarrow> string \<Rightarrow> exn + js_error list"

datatype shape =
    AnyShape
  | BinaryShape
  | BoolShape
  | IntegerShape
  | NumberShape
  | StringShape
  | TimestampShape
  | NothingShape
  | NeverShape
  | EnumShape "(string \<times> string) list"
  | LiteralShape shape jsval
  | ArrayShape shape
  | SetShape shape
  | MapShape shape
  | StructShape string "(string \<times> shape) list"
  | UnionShape "shape list"
  | FunctionShape "(string \<times> shape) list" shape
  | Decorated "validator list" shape

text \<open>The shape under its decorations, which is what a visitor is dispatched on.\<close>

fun undecorated :: "shape \<Rightarrow> shape" where
  "undecorated (Decorated vs s) = undecorated s"
| "undecorated s = s"

subsection \<open>Run-time helpers\<close>

text \<open>
  \<open>a === b\<close>: primitives compare by value (NaN differs from itself), separate
  objects are never identical, a built-in is identical to itself.
\<close>

definition js_strict_eq :: "jsval \<Rightarrow> jsval \<Rightarrow> bool" where
  "js_strict_eq a b =
     (a = b \<and> (case a of JUndefined \<Rightarrow> True | JNull \<Rightarrow> True | JBool _ \<Rightarrow> True
                | JNum n \<Rightarrow> n \<noteq> NaN | JStr _ \<Rightarrow> True | JBuiltin _ \<Rightarrow> True | _ \<Rightarrow> False))"

definition js_keys :: "jsval \<Rightarrow> exn + string list" where
  "js_keys v = (case own_entries v of Inl e \<Rightarrow> Inl e | Inr es \<Rightarrow> Inr (map fst es))"

text \<open>
  \<open>v.length\<close> and \<open>v.size\<close>: own properties of a plain object, the length of an
  array, a string or a buffer, the size of a set; a built-in function has a
  length (its arity), which is not modelled.
\<close>

definition js_length :: "jsval \<Rightarrow> exn + jsval" where
  "js_length v = (case v of
      JUndefined \<Rightarrow> Inl TypeError
    | JNull \<Rightarrow> Inl TypeError
    | JArr xs \<Rightarrow> Inr (JNum (Fin (of_nat (length xs))))
    | JStr s \<Rightarrow> Inr (JNum (Fin (of_nat (length s))))
    | JBuf bs \<Rightarrow> Inr (JNum (Fin (of_nat (length bs))))
    | JObj es \<Rightarrow> Inr (obj_get es ''length'')
    | JBuiltin n \<Rightarrow> Inl Unmodelled
    | _ \<Rightarrow> Inr JUndefined)"

definition js_size :: "jsval \<Rightarrow> exn + jsval" where
  "js_size v = (case v of
      JUndefined \<Rightarrow> Inl TypeError
    | JNull \<Rightarrow> Inl TypeError
    | JSet xs \<Rightarrow> Inr (JNum (Fin (of_nat (length xs))))
    | JObj es \<Rightarrow> Inr (obj_get es ''size'')
    | _ \<Rightarrow> Inr JUndefined)"

text \<open>
  \<open>v[k]\<close>, a \<open>TypeError\<close> on \<open>null\<close> and \<open>undefined\<close>.  An own property is found
  first.  Otherwise a plain object answers with what it inherits from
  \<open>Object.prototype\<close>, or \<open>undefined\<close>.  Of the values of the other kinds the
  model knows \<open>length\<close> and \<open>size\<close>, and that the prototypes of arrays, strings,
  numbers, booleans, dates and sets define no name that begins with an
  upper-case letter (the keys of the wire format are such names): any other
  name may be a method of the prototype, which is not modelled.
\<close>

definition upper_initial :: "string \<Rightarrow> bool" where
  "upper_initial k = (case k of [] \<Rightarrow> False | c # _ \<Rightarrow> c \<in> set ''ABCDEFGHIJKLMNOPQRSTUVWXYZ'')"

definition js_get :: "jsval \<Rightarrow> string \<Rightarrow> exn + jsval" where
  "js_get v k =
     (case own_entries v of
        Inl e \<Rightarrow> Inl e
      | Inr es \<Rightarrow>
         (case map_of es k of
            Some x \<Rightarrow> Inr x
          | None \<Rightarrow>
             (case v of
                JObj _ \<Rightarrow> Inr (inherited k)
              | JBuiltin _ \<Rightarrow> Inl Unmodelled
              | JBuf _ \<Rightarrow> (if k = ''length'' then js_length v else Inl Unmodelled)
              | _ \<Rightarrow>
                 if k = ''length'' then js_length v
                 else if k = ''size'' then js_size v
                 else if upper_initial k then Inr JUndefined
                 else Inl Unmodelled)))"

text \<open>How often \<open>for (let i = 0; i < bound; i++)\<close> runs.\<close>

definition loop_count :: "jsval \<Rightarrow> nat option" where
  "loop_count bound = (case bound of
      JNum (Fin n) \<Rightarrow> Some (nat \<lceil>n\<rceil>)
    | JNum NaN \<Rightarrow> Some 0
    | JNum (Inf False) \<Rightarrow> Some 0
    | JUndefined \<Rightarrow> Some 0
    | JNull \<Rightarrow> Some 0
    | JBool b \<Rightarrow> Some (if b then 1 else 0)
    | _ \<Rightarrow> None)"

text \<open>\<open>buf.readUInt8(i)\<close>.\<close>

definition readUInt8 :: "jsval \<Rightarrow> nat \<Rightarrow> exn + 8 word" where
  "readUInt8 v i = (case v of
      JBuf bs \<Rightarrow> (if i < length bs then Inr (bs ! i) else Inl RangeError)
    | _ \<Rightarrow> Inl TypeError)"

text \<open>
  SameValueZero, the comparison of the members of a \<open>Set\<close>: as \<open>===\<close>, but NaN
  is the same as NaN.
\<close>

definition same_value_zero :: "jsval \<Rightarrow> jsval \<Rightarrow> bool" where
  "same_value_zero a b =
     (a = b \<and> (case a of JUndefined \<Rightarrow> True | JNull \<Rightarrow> True | JBool _ \<Rightarrow> True
                | JNum _ \<Rightarrow> True | JStr _ \<Rightarrow> True | JBuiltin _ \<Rightarrow> True | _ \<Rightarrow> False))"

text \<open>\<open>set.values()\<close> and \<open>set.has(v)\<close>.\<close>

definition js_values :: "jsval \<Rightarrow> exn + jsval list" where
  "js_values v = (case v of JSet xs \<Rightarrow> Inr xs | JArr xs \<Rightarrow> Inr xs | _ \<Rightarrow> Inl TypeError)"

definition js_has :: "jsval \<Rightarrow> jsval \<Rightarrow> exn + bool" where
  "js_has s v = (case s of JSet xs \<Rightarrow> Inr (\<exists>x \<in> set xs. same_value_zero x v) | _ \<Rightarrow> Inl TypeError)"

text \<open>\<open>date.getTime()\<close>; \<open>None\<close> is NaN.\<close>

definition getTime :: "jsval \<Rightarrow> exn + int option" where
  "getTime v = (case v of JDate t \<Rightarrow> Inr t | _ \<Rightarrow> Inl TypeError)"

text \<open>A callback applied to every element in order (\<open>Array.prototype.map\<close>); the first exception ends it.\<close>

fun mapE :: "('a \<Rightarrow> exn + 'b) \<Rightarrow> 'a list \<Rightarrow> exn + 'b list" where
  "mapE f [] = Inr []"
| "mapE f (x # xs) =
     (case f x of Inl e \<Rightarrow> Inl e
      | Inr y \<Rightarrow> (case mapE f xs of Inl e \<Rightarrow> Inl e | Inr ys \<Rightarrow> Inr (y # ys)))"

text \<open>The results of compiling the children, in order; the first exception ends the compilation.\<close>

fun sequenceE :: "(exn + 'a) list \<Rightarrow> exn + 'a list" where
  "sequenceE [] = Inr []"
| "sequenceE (m # ms) =
     (case m of Inl e \<Rightarrow> Inl e
      | Inr y \<Rightarrow> (case sequenceE ms of Inl e \<Rightarrow> Inl e | Inr ys \<Rightarrow> Inr (y # ys)))"

text \<open>A loop that returns \<open>false\<close> at the first element whose check fails and \<open>true\<close> after the last.\<close>

fun loop_all :: "('a \<Rightarrow> exn + bool) \<Rightarrow> 'a list \<Rightarrow> exn + bool" where
  "loop_all f [] = Inr True"
| "loop_all f (x # xs) =
     (case f x of Inl e \<Rightarrow> Inl e
      | Inr ok \<Rightarrow> if ok then loop_all f xs else Inr False)"

text \<open>\<open>items.find(p) !== undefined\<close>: the first element for which \<open>p\<close> holds ends the search.\<close>

fun find_some :: "('a \<Rightarrow> exn + bool) \<Rightarrow> 'a list \<Rightarrow> exn + bool" where
  "find_some p [] = Inr False"
| "find_some p (x # xs) =
     (case p x of Inl e \<Rightarrow> Inl e
      | Inr ok \<Rightarrow> if ok then Inr True else find_some p xs)"

text \<open>
  \<open>entries.map(([name, c]) => ({[name]: c})).reduce((a, b) => ({...a, ...b}))\<close>:
  without an initial value \<open>reduce\<close> throws on an empty array.
\<close>

definition reduce_spread :: "(string \<times> 'a) list \<Rightarrow> (string \<times> 'a) list" where
  "reduce_spread es = obj_assign [] es"

definition reduce_spread1 :: "(string \<times> 'a) list \<Rightarrow> exn + (string \<times> 'a) list" where
  "reduce_spread1 es = (if es = [] then Inl TypeError else Inr (obj_assign [] es))"

subsection \<open>Deep equality of untyped values (\<open>Equals.Visitor.anyShape\<close>)\<close>

function any_equals :: "jsval \<Rightarrow> jsval \<Rightarrow> exn + bool"
  and any_equals_items :: "jsval list \<Rightarrow> jsval list \<Rightarrow> exn + bool"
  and any_equals_entries :: "(string \<times> jsval) list \<Rightarrow> jsval \<Rightarrow> string list \<Rightarrow> exn + bool"
where
  "any_equals a b =
     (if js_typeof a \<noteq> js_typeof b then Inr False
      else if js_typeof a = ''undefined'' then Inr True
      else if js_typeof a = ''string'' \<or> js_typeof a = ''number'' \<or> js_typeof a = ''boolean''
        then Inr (js_strict_eq a b)
      else if js_typeof a \<noteq> ''object'' then
        Inl (Thrown (MkError ''unsupported value in any type: ${type}'' [JStr (js_typeof a)]))
      else if isArray a \<and> isArray b then
        (if length (elems a) \<noteq> length (elems b) then Inr False
         else any_equals_items (elems a) (elems b))
      else if isArray a \<or> isArray b then Inr False
      else
        (case own_entries a of
           Inl e \<Rightarrow> Inl e
         | Inr aes \<Rightarrow>
            (case js_keys b of
               Inl e \<Rightarrow> Inl e
             | Inr bKeys \<Rightarrow>
                if length aes \<noteq> card (set bKeys) then Inr False
                else any_equals_entries aes b bKeys)))"
| "any_equals_items [] ys = Inr True"
| "any_equals_items (x # xs) ys =
     (case any_equals x (case ys of [] \<Rightarrow> JUndefined | y # _ \<Rightarrow> y) of
        Inl e \<Rightarrow> Inl e
      | Inr ok \<Rightarrow> if ok then any_equals_items xs (tl ys) else Inr False)"
| "any_equals_entries [] b bKeys = Inr True"
| "any_equals_entries ((k, av) # rest) b bKeys =
     (if k \<notin> set bKeys then Inr False
      else
        (case js_get b k of
           Inl e \<Rightarrow> Inl e
         | Inr bv \<Rightarrow>
            (case any_equals av bv of
               Inl e \<Rightarrow> Inl e
             | Inr ok \<Rightarrow> if ok then any_equals_entries rest b bKeys else Inr False)))"
  by pat_completeness auto
termination
proof (relation "measure (\<lambda>x. case x of
          Inl (a, b) \<Rightarrow> 2 * weight a + 1
        | Inr (Inl (xs, ys)) \<Rightarrow> 2 * sum_list (map (\<lambda>x. Suc (weight x)) xs)
        | Inr (Inr (es, b, ks)) \<Rightarrow> 2 * entries_weight es)", goal_cases)
  case 1
  show ?case by simp
next
  case (2 a b)
  then show ?case by (cases a) (auto simp: isArray_def elems_def)
next
  case (3 a b aes bKeys)
  then have "js_typeof a = ''object''" by (cases a) (auto simp: js_typeof_def)
  with 3 show ?case using own_entries_weight[of a aes] by simp
next
  case (4 x xs ys)
  show ?case by simp
next
  case (5 x xs ys ok)
  show ?case by simp
next
  case (6 k av rest b bKeys bv)
  show ?case by (simp add: entries_weight_def)
next
  case (7 k av rest b bKeys bv ok)
  show ?case by (simp add: entries_weight_def)
qed

declare any_equals.simps [simp del]


subsection \<open>Run-time parts of the compiled transforms\<close>

type_synonym is_instance = "jsval \<Rightarrow> exn + bool"
type_synonym equals = "jsval \<Rightarrow> jsval \<Rightarrow> exn + bool"

text \<open>\<open>IsInstanceVisitor.structShape\<close>: every declared field's value conforms.\<close>

definition struct_is_instance :: "(string \<times> is_instance) list \<Rightarrow> is_instance" where
  "struct_is_instance flds a =
     (if js_typeof a = ''object'' then
        loop_all (\<lambda>(fieldName, isField).
            case js_get a fieldName of Inl e \<Rightarrow> Inl e | Inr v \<Rightarrow> isField v) flds
      else Inr False)"

text \<open>\<open>IsInstanceVisitor.arrayShape\<close>: \<open>filter\<close> checks every item.\<close>

definition array_is_instance :: "is_instance \<Rightarrow> is_instance" where
  "array_is_instance isItem a =
     (if isArray a then
        (case mapE isItem (elems a) of
           Inl e \<Rightarrow> Inl e
         | Inr oks \<Rightarrow> Inr (length (filter (\<lambda>ok. \<not> ok) oks) = 0))
      else Inr False)"

text \<open>
  \<open>IsInstanceVisitor.mapShape\<close>.  A \<open>Map\<close> object is itself of type \<open>object\<close>, so
  the \<open>instanceof Map\<close> branch is never reached; the keys of \<open>Object.entries\<close>
  are strings.
\<close>

definition map_is_instance :: "is_instance \<Rightarrow> is_instance" where
  "map_is_instance isItem a =
     (if js_typeof a = ''object'' then
        (case own_entries a of
           Inl e \<Rightarrow> Inl e
         | Inr es \<Rightarrow> loop_all (\<lambda>(key, v). isItem v) es)
      else Inr False)"

text \<open>
  \<open>IsInstanceVisitor.setShape\<close>: inside \<open>if (a instanceof Set)\<close> the loop returns
  \<open>false\<close> at the first member that does not conform; after the \<open>if\<close> the
  function returns \<open>false\<close>.
\<close>

definition set_is_instance :: "is_instance \<Rightarrow> is_instance" where
  "set_is_instance isItem a =
     (case a of
        JSet xs \<Rightarrow> (case loop_all isItem xs of Inl e \<Rightarrow> Inl e | Inr _ \<Rightarrow> Inr False)
      | _ \<Rightarrow> Inr False)"

definition union_is_instance :: "is_instance list \<Rightarrow> is_instance" where
  "union_is_instance items a = find_some (\<lambda>isItem. isItem a) items"

definition literal_is_instance :: "is_instance \<Rightarrow> equals \<Rightarrow> jsval \<Rightarrow> is_instance" where
  "literal_is_instance isType isEqual Value a =
     (case isType a of
        Inl e \<Rightarrow> Inl e
      | Inr ok \<Rightarrow> if ok then isEqual a Value else Inr False)"

text \<open>\<open>Equals.Visitor.unionShape\<close>.\<close>

fun union_eq_loop :: "(is_instance \<times> equals) list \<Rightarrow> jsval \<Rightarrow> jsval \<Rightarrow> exn + bool" where
  "union_eq_loop [] a b = Inr False"
| "union_eq_loop ((isType, isEqual) # rest) a b =
     (case isType a of
        Inl e \<Rightarrow> Inl e
      | Inr ta \<Rightarrow>
         if ta then
           (case isType b of
              Inl e \<Rightarrow> Inl e
            | Inr tb \<Rightarrow> if tb then isEqual a b else union_eq_loop rest a b)
         else union_eq_loop rest a b)"

definition union_equals :: "(is_instance \<times> equals) list \<Rightarrow> equals" where
  "union_equals items a b = (if js_strict_eq a b then Inr True else union_eq_loop items a b)"

text \<open>\<open>Equals.Visitor.binaryShape\<close>.\<close>

definition binary_equals :: equals where
  "binary_equals a b =
     (case js_length a of Inl e \<Rightarrow> Inl e | Inr la \<Rightarrow>
      case js_length b of Inl e \<Rightarrow> Inl e | Inr lb \<Rightarrow>
        if \<not> js_strict_eq la lb then Inr False
        else
          (case loop_count la of
             None \<Rightarrow> Inl Unmodelled
           | Some n \<Rightarrow>
              loop_all (\<lambda>i. case readUInt8 a i of Inl e \<Rightarrow> Inl e | Inr x \<Rightarrow>
                            case readUInt8 b i of Inl e \<Rightarrow> Inl e | Inr y \<Rightarrow> Inr (x = y)) [0..<n]))"

text \<open>\<open>Equals.Visitor.arrayShape\<close>.\<close>

definition array_equals :: "equals \<Rightarrow> equals" where
  "array_equals itemEq a b =
     (case js_length a of Inl e \<Rightarrow> Inl e | Inr la \<Rightarrow>
      case js_length b of Inl e \<Rightarrow> Inl e | Inr lb \<Rightarrow>
        if \<not> js_strict_eq la lb then Inr False
        else
          (case loop_count la of
             None \<Rightarrow> Inl Unmodelled
           | Some n \<Rightarrow>
              loop_all (\<lambda>i. case js_get a (show_nat i) of Inl e \<Rightarrow> Inl e | Inr aItem \<Rightarrow>
                            case js_get b (show_nat i) of Inl e \<Rightarrow> Inl e | Inr bItem \<Rightarrow>
                              itemEq aItem bItem) [0..<n]))"

text \<open>
  \<open>Equals.Visitor.structShape\<close>.  The loop runs over the keys of \<open>a\<close>; a key
  whose value is \<open>undefined\<close> on both sides ends it with \<open>false\<close>; a key that is
  no field of the shape finds no equality to call, a \<open>TypeError\<close>, unless the
  table of equalities inherits a function under that name, whose call is not
  modelled.
\<close>

definition struct_equals :: "(string \<times> equals) list \<Rightarrow> equals" where
  "struct_equals flds a b =
     (case js_keys a of Inl e \<Rightarrow> Inl e | Inr aKeys \<Rightarrow>
      case js_keys b of Inl e \<Rightarrow> Inl e | Inr bKeys \<Rightarrow>
        if length aKeys \<noteq> length bKeys then Inr False
        else
          loop_all (\<lambda>aKey.
            case js_get a aKey of Inl e \<Rightarrow> Inl e | Inr aValue \<Rightarrow>
            case js_get b aKey of Inl e \<Rightarrow> Inl e | Inr bValue \<Rightarrow>
              if aValue = JUndefined \<and> bValue = JUndefined then Inr False
              else (case map_of flds aKey of
                      None \<Rightarrow> if aKey \<in> set object_prototype then Inl Unmodelled else Inl TypeError
                    | Some isEq \<Rightarrow> isEq aValue bValue)) aKeys)"

text \<open>\<open>Equals.Visitor.mapShape\<close>.\<close>

definition map_equals :: "equals \<Rightarrow> equals" where
  "map_equals valueEquals a b =
     (case js_keys a of Inl e \<Rightarrow> Inl e | Inr aKeys \<Rightarrow>
      case js_keys b of Inl e \<Rightarrow> Inl e | Inr bKeys \<Rightarrow>
        if length aKeys \<noteq> length bKeys then Inr False
        else
          loop_all (\<lambda>aKey.
            case js_get a aKey of Inl e \<Rightarrow> Inl e | Inr aValue \<Rightarrow>
            case js_get b aKey of Inl e \<Rightarrow> Inl e | Inr bValue \<Rightarrow>
              if bValue = JUndefined then Inr False
              else valueEquals aValue bValue) aKeys)"

text \<open>\<open>Equals.Visitor.setShape\<close>.\<close>

definition set_equals :: equals where
  "set_equals a b =
     (case js_size a of Inl e \<Rightarrow> Inl e | Inr sa \<Rightarrow>
      case js_size b of Inl e \<Rightarrow> Inl e | Inr sb \<Rightarrow>
        if \<not> js_strict_eq sa sb then Inr False
        else (case js_values a of Inl e \<Rightarrow> Inl e | Inr vs \<Rightarrow> loop_all (js_has b) vs))"

text \<open>\<open>Equals.Visitor.timestampShape\<close>: NaN is not equal to itself.\<close>

definition timestamp_equals :: equals where
  "timestamp_equals a b =
     (case getTime a of Inl e \<Rightarrow> Inl e | Inr ta \<Rightarrow>
      case getTime b of Inl e \<Rightarrow> Inl e | Inr tb \<Rightarrow> Inr (ta \<noteq> None \<and> ta = tb))"

subsection \<open>Instance check (\<open>IsInstance.of\<close>) and equality (\<open>Equals.of\<close>)\<close>

text \<open>
  Compiling a shape compiles its children first and may itself throw; the
  result is the transform.  The \<open>deep\<close> property of \<open>IsInstanceProps\<close> is passed
  along by the visitor but never read, so it is left out.  \<open>Equals.Visitor\<close>
  has no handler \<open>integerShape\<close>: visiting an integer shape calls a method that
  does not exist.
\<close>

fun IsInstance_of :: "shape \<Rightarrow> exn + is_instance"
  and Equals_of :: "shape \<Rightarrow> exn + equals"
where
  "IsInstance_of (EnumShape Values) =
     Inr (\<lambda>a. Inr (a \<in> set (map (\<lambda>(name, v). JStr v) Values)))"
| "IsInstance_of (ArrayShape Items) =
     (case IsInstance_of Items of Inl e \<Rightarrow> Inl e | Inr isItem \<Rightarrow> Inr (array_is_instance isItem))"
| "IsInstance_of BinaryShape = Inr (\<lambda>a. Inr ((case a of JBuf _ \<Rightarrow> True | _ \<Rightarrow> False) \<or> js_typeof a = ''string''))"
| "IsInstance_of BoolShape = Inr (\<lambda>a. Inr (js_typeof a = ''boolean''))"
| "IsInstance_of (StructShape nm Fields) =
     (case sequenceE (map (\<lambda>(name, v). case IsInstance_of v of Inl e \<Rightarrow> Inl e | Inr c \<Rightarrow> Inr (name, c)) Fields) of
        Inl e \<Rightarrow> Inl e
      | Inr cs \<Rightarrow> (case reduce_spread1 cs of Inl e \<Rightarrow> Inl e | Inr flds \<Rightarrow> Inr (struct_is_instance flds)))"
| "IsInstance_of AnyShape = Inr (\<lambda>a. Inr True)"
| "IsInstance_of (FunctionShape args returns) = Inr (\<lambda>a. Inr False)"
| "IsInstance_of IntegerShape = Inr (\<lambda>a. Inr (js_typeof a = ''number''))"
| "IsInstance_of (LiteralShape Type Value) =
     (case Equals_of Type of Inl e \<Rightarrow> Inl e | Inr isEqual \<Rightarrow>
      case IsInstance_of Type of Inl e \<Rightarrow> Inl e | Inr isType \<Rightarrow>
        Inr (literal_is_instance isType isEqual Value))"
| "IsInstance_of (MapShape Items) =
     (case IsInstance_of Items of Inl e \<Rightarrow> Inl e | Inr isItem \<Rightarrow> Inr (map_is_instance isItem))"
| "IsInstance_of NeverShape = Inr (\<lambda>a. Inr False)"
| "IsInstance_of NothingShape = Inr (\<lambda>a. Inr (a = JUndefined \<or> a = JNull))"
| "IsInstance_of NumberShape = Inr (\<lambda>a. Inr (js_typeof a = ''number''))"
| "IsInstance_of (SetShape Items) =
     (case IsInstance_of Items of Inl e \<Rightarrow> Inl e | Inr isItem \<Rightarrow> Inr (set_is_instance isItem))"
| "IsInstance_of StringShape = Inr (\<lambda>a. Inr (js_typeof a = ''string''))"
| "IsInstance_of TimestampShape = Inr (\<lambda>a. Inr (case a of JDate _ \<Rightarrow> True | _ \<Rightarrow> False))"
| "IsInstance_of (Decorated vs s) = IsInstance_of s"
| "IsInstance_of (UnionShape Items) =
     (case sequenceE (map IsInstance_of Items) of
        Inl e \<Rightarrow> Inl e
      | Inr items \<Rightarrow> Inr (union_is_instance items))"
| "Equals_of (EnumShape Values) = Inr (\<lambda>a b. Inr (js_strict_eq a b))"
| "Equals_of (LiteralShape Type Value) = Equals_of Type"
| "Equals_of (UnionShape Items) =
     (case sequenceE (map (\<lambda>item. case IsInstance_of item of Inl e \<Rightarrow> Inl e | Inr isType \<Rightarrow>
                                    case Equals_of item of Inl e \<Rightarrow> Inl e | Inr isEqual \<Rightarrow>
                                      Inr (isType, isEqual)) Items) of
        Inl e \<Rightarrow> Inl e
      | Inr items \<Rightarrow> Inr (union_equals items))"
| "Equals_of NeverShape = Inr (\<lambda>a b. Inr False)"
| "Equals_of (FunctionShape args returns) = Inr (\<lambda>a b. Inr (js_strict_eq a b \<and> js_typeof a = ''function''))"
| "Equals_of NothingShape = Inr (\<lambda>a b. Inr (js_strict_eq a b \<and> a = JUndefined))"
| "Equals_of AnyShape = Inr any_equals"
| "Equals_of BinaryShape = Inr binary_equals"
| "Equals_of (ArrayShape Items) =
     (case Equals_of Items of Inl e \<Rightarrow> Inl e | Inr itemEq \<Rightarrow> Inr (array_equals itemEq))"
| "Equals_of BoolShape = Inr (\<lambda>a b. Inr (js_strict_eq a b))"
| "Equals_of (StructShape nm Fields) =
     (case sequenceE (map (\<lambda>(name, member). case Equals_of member of Inl e \<Rightarrow> Inl e | Inr c \<Rightarrow> Inr (name, c)) Fields) of
        Inl e \<Rightarrow> Inl e
      | Inr cs \<Rightarrow> (case reduce_spread1 cs of Inl e \<Rightarrow> Inl e | Inr flds \<Rightarrow> Inr (struct_equals flds)))"
| "Equals_of (MapShape Items) =
     (case Equals_of Items of Inl e \<Rightarrow> Inl e | Inr valueEquals \<Rightarrow> Inr (map_equals valueEquals))"
| "Equals_of NumberShape = Inr (\<lambda>a b. Inr (js_strict_eq a b))"
| "Equals_of IntegerShape = Inl TypeError"
| "Equals_of (SetShape Items) = Inr set_equals"
| "Equals_of StringShape = Inr (\<lambda>a b. Inr (js_strict_eq a b))"
| "Equals_of TimestampShape = Inr timestamp_equals"
| "Equals_of (Decorated vs s) = Equals_of s"


text \<open>Compiling the instance check of \<open>S\<close> and applying it to \<open>V\<close>; \<open>S\<close> accepts \<open>V\<close>.\<close>

definition instance_check :: "shape \<Rightarrow> jsval \<Rightarrow> exn + bool" where
  "instance_check S V = (case IsInstance_of S of Inl e \<Rightarrow> Inl e | Inr isInstance \<Rightarrow> isInstance V)"

definition accepts :: "shape \<Rightarrow> jsval \<Rightarrow> bool" where
  "accepts S V \<longleftrightarrow> instance_check S V = Inr True"

subsection \<open>Properties of the instance check and of equality\<close>

lemma js_get_own: "own_entries v = Inr es \<Longrightarrow> map_of es k = Some x \<Longrightarrow> js_get v k = Inr x"
  by (simp add: js_get_def)

lemma js_get_absent: "map_of es k = None \<Longrightarrow> js_get (JObj es) k = Inr (inherited k)"
  by (simp add: js_get_def own_entries_def)

lemma inherited_ordinary: "k \<notin> set object_prototype \<Longrightarrow> inherited k = JUndefined"
  by (simp add: inherited_def object_prototype_def)

lemma set_is_instance_never: "set_is_instance isItem a \<noteq> Inr True"
  by (auto simp: set_is_instance_def split: jsval.splits sum.splits)

text \<open>The array handler, next to it, does accept an array whose items all conform.\<close>

lemma mapE_all_True: "(\<And>x. x \<in> set xs \<Longrightarrow> f x = Inr True) \<Longrightarrow> mapE f xs = Inr (replicate (length xs) True)"
  by (induction xs) simp_all

lemma array_is_instance_accepts:
  assumes "\<And>x. x \<in> set xs \<Longrightarrow> isItem x = Inr True"
  shows "array_is_instance isItem (JArr xs) = Inr True"
  using mapE_all_True[of xs isItem] assms
  by (simp add: array_is_instance_def isArray_def elems_def)

text \<open>
  C3.  The compiled instance check of the Set shape of strings, applied to the
  set whose only member is the string \<open>a\<close>: the member conforms to the
  item shape, and the check answers \<open>false\<close>.
\<close>

theorem set_is_instance_failing_input:
  "\<exists>isSet isItem. IsInstance_of (SetShape StringShape) = Inr isSet \<and>
      IsInstance_of StringShape = Inr isItem \<and>
      isItem (JStr ''a'') = Inr True \<and>
      isSet (JSet [JStr ''a'']) = Inr False"
  by (simp add: set_is_instance_def js_typeof_def)

text \<open>
  C4.  The compiled equality of a struct with a string field \<open>id\<close> and an
  optional number field \<open>count\<close>, applied to two values that both have
  \<open>id = 'a'\<close> and \<open>count = undefined\<close>: both have two keys, each field's
  own equality holds of the two field values, and the struct equality answers
  \<open>false\<close>.
\<close>

theorem struct_equals_failing_input:
  "\<exists>eq eqId eqCount.
      Equals_of (StructShape ''T'' [(''id'', StringShape), (''count'', UnionShape [NumberShape, NothingShape])]) = Inr eq \<and>
      Equals_of StringShape = Inr eqId \<and>
      Equals_of (UnionShape [NumberShape, NothingShape]) = Inr eqCount \<and>
      eqId (JStr ''a'') (JStr ''a'') = Inr True \<and>
      eqCount JUndefined JUndefined = Inr True \<and>
      eq (JObj [(''id'', JStr ''a''), (''count'', JUndefined)])
         (JObj [(''id'', JStr ''a''), (''count'', JUndefined)]) = Inr False"
  by (simp add: reduce_spread1_def obj_assign_def struct_equals_def js_keys_def own_entries_def
      js_get_def obj_get_def js_strict_eq_def union_equals_def)

section \<open>What the host provides\<close>

text \<open>
  A codec, \<open>Mapper<T>\<close>: its \<open>read\<close> and \<open>write\<close> (both words are keywords, hence the prefix).
\<close>

record mapper =
  m_read :: "jsval \<Rightarrow> exn + jsval"
  m_write :: "jsval \<Rightarrow> exn + jsval"

text \<open>
  Built-ins of the JavaScript run time and parts of this repository that the
  transforms call but whose code is not part of the files modelled.  They
  are parameters of the model; every theorem holds for each choice of them.
  \<^item> \<open>ToString\<close>: \<open>String(v)\<close>, as in a template literal, and \<open>n.toString(10)\<close> on a number;
  \<^item> \<open>ToNumber\<close>: \<open>Number(v)\<close>, the coercion of an operand of \<open>%\<close>;
  \<^item> \<open>parseInt10\<close>, \<open>parseFloat\<close>, \<open>Date_parse\<close> (\<open>None\<close> is NaN), \<open>toISOString\<close> of a valid instant;
  \<^item> \<open>base64_encode\<close>, \<open>base64_decode\<close>: \<open>buf.toString('base64')\<close>, \<open>Buffer.from(s, 'base64')\<close>;
  \<^item> \<open>Converter_input\<close>, \<open>Converter_output\<close>: \<open>AWS.DynamoDB.Converter\<close>;
  \<^item> \<open>ValidatingMapper_of\<close>: \<open>ValidatingMapper.of(shape, mapper)\<close>;
  \<^item> \<open>construct\<close>: \<open>new shape(values)\<close>, the class of a struct;
  \<^item> \<open>HashSet_of\<close>: the \<open>HashSet\<close> of an item shape after adding the given elements in order.
\<close>

record host =
  ToString :: "jsval \<Rightarrow> string"
  ToNumber :: "jsval \<Rightarrow> jsnum"
  parseInt10 :: "string \<Rightarrow> jsnum"
  parseFloat :: "string \<Rightarrow> jsnum"
  Date_parse :: "string \<Rightarrow> int option"
  toISOString :: "int \<Rightarrow> string"
  base64_encode :: "8 word list \<Rightarrow> string"
  base64_decode :: "string \<Rightarrow> 8 word list"
  Converter_input :: "jsval \<Rightarrow> exn + jsval"
  Converter_output :: "jsval \<Rightarrow> exn + jsval"
  ValidatingMapper_of :: "shape \<Rightarrow> mapper \<Rightarrow> exn + mapper"
  construct :: "shape \<Rightarrow> jsval \<Rightarrow> exn + jsval"
  HashSet_of :: "shape \<Rightarrow> jsval list \<Rightarrow> exn + jsval"

text \<open>
  A host for closed examples: validation accepts everything, the class of a
  struct keeps the properties it is given, a hash set keeps the elements it is
  given; the examples do not use the conversions.
\<close>

definition example_host :: host where
  "example_host =
     \<lparr> ToString = (\<lambda>v. case v of JStr s \<Rightarrow> s | _ \<Rightarrow> []),
       ToNumber = (\<lambda>v. NaN),
       parseInt10 = (\<lambda>s. NaN),
       parseFloat = (\<lambda>s. NaN),
       Date_parse = (\<lambda>s. None),
       toISOString = (\<lambda>t. []),
       base64_encode = (\<lambda>bs. []),
       base64_decode = (\<lambda>s. []),
       Converter_input = Inr,
       Converter_output = Inr,
       ValidatingMapper_of = (\<lambda>shape m. Inr m),
       construct = (\<lambda>shape v. Inr v),
       HashSet_of = (\<lambda>shape xs. Inr (JSet xs)) \<rparr>"

section \<open>Validation (validation.ts)\<close>

definition sq :: char where
  "sq = CHR 0x27"

text \<open>\<open>`${path}['${name}']`\<close> and \<open>`${path}[${i}]`\<close>.\<close>

definition field_path :: "string \<Rightarrow> string \<Rightarrow> string" where
  "field_path path name = path @ ''['' @ [sq] @ name @ [sq] @ '']''"

definition index_path :: "string \<Rightarrow> nat \<Rightarrow> string" where
  "index_path path i = path @ ''['' @ show_nat i @ '']''"

text \<open>\<open>values.join(',')\<close>.\<close>

fun join :: "string \<Rightarrow> string list \<Rightarrow> string" where
  "join sep [] = []"
| "join sep [x] = x"
| "join sep (x # y # ys) = x @ sep @ join sep (y # ys)"

text \<open>\<open>n % 1 === 0\<close> on a number.\<close>

definition whole :: "jsnum \<Rightarrow> bool" where
  "whole n = (case n of Fin r \<Rightarrow> of_int \<lfloor>r\<rfloor> = r | _ \<Rightarrow> False)"

text \<open>\<open>Array.from(v)\<close> for the iterables of the model.\<close>

definition Array_from :: "jsval \<Rightarrow> exn + jsval list" where
  "Array_from v = (case v of
      JUndefined \<Rightarrow> Inl TypeError
    | JNull \<Rightarrow> Inl TypeError
    | JSet xs \<Rightarrow> Inr xs
    | JArr xs \<Rightarrow> Inr xs
    | JStr s \<Rightarrow> Inr (map (\<lambda>c. JStr [c]) s)
    | JBuf bs \<Rightarrow> Inr (map (\<lambda>b. JNum (Fin (of_nat (unat b)))) bs)
    | JObj es \<Rightarrow> (if obj_get es ''length'' = JUndefined then Inr [] else Inl Unmodelled)
    | JBuiltin n \<Rightarrow> Inl Unmodelled
    | _ \<Rightarrow> Inr [])"

text \<open>
  \<open>validators.map(v => v(a, path)).reduce((a, b) => a.concat(b), [])\<close>: every
  validator runs, the diagnostics are concatenated in order.
\<close>

definition run_validators :: "validator list \<Rightarrow> validator" where
  "run_validators vs a path =
     (case mapE (\<lambda>v. v a path) vs of Inl e \<Rightarrow> Inl e | Inr ess \<Rightarrow> Inr (concat ess))"

definition enum_validate :: "string list \<Rightarrow> validator" where
  "enum_validate vals item path =
     (if js_typeof item \<noteq> ''string'' then
        Inr [MkError ''expected string value for enum, got ${item} at ${path}'' [item, JStr path]]
      else if item \<notin> set (map JStr vals) then
        Inr [MkError ''expected one of (${values.join(,)}), got ${item} at ${path}''
               [JStr (join '','' vals), item, JStr path]]
      else Inr [])"

text \<open>\<open>Validator.Visitor.unionShape\<close>: the first variant whose instance check accepts validates.\<close>

fun union_validate :: "(is_instance \<times> validator) list \<Rightarrow> validator" where
  "union_validate [] item path = Inr []"
| "union_validate ((isType, v) # rest) item path =
     (case isType item of
        Inl e \<Rightarrow> Inl e
      | Inr ok \<Rightarrow> if ok then v item path else union_validate rest item path)"

definition literal_validate :: "is_instance \<Rightarrow> jsval \<Rightarrow> validator" where
  "literal_validate isType Value v path =
     (case isType v of
        Inl e \<Rightarrow> Inl e
      | Inr ok \<Rightarrow>
         if \<not> ok then Inr [MkError ''expected literal value: ${shape.Value}, got ${value}, at: ${path}''
                             [Value, v, JStr path]]
         else Inr [])"

definition array_validate :: "validator \<Rightarrow> validator" where
  "array_validate validateItem arr path =
     (case arr of
        JArr xs \<Rightarrow>
          (case mapE (\<lambda>(i, item). validateItem item (index_path path i)) (zip [0..<length xs] xs) of
             Inl e \<Rightarrow> Inl e
           | Inr ess \<Rightarrow> Inr (concat ess))
      | JBuf bs \<Rightarrow> Inl Unmodelled
      | _ \<Rightarrow> Inl TypeError)"

text \<open>\<open>Validator.Visitor.structShape\<close>: every field's validators run on \<open>obj[name]\<close> at \<open>path['name']\<close>.\<close>

definition struct_validate :: "(string \<times> validator list) list \<Rightarrow> validator" where
  "struct_validate validators obj path =
     (case mapE (\<lambda>(name, vs).
              case mapE (\<lambda>v. case js_get obj name of Inl e \<Rightarrow> Inl e
                                 | Inr x \<Rightarrow> v x (field_path path name)) vs of
                Inl e \<Rightarrow> Inl e
              | Inr ess \<Rightarrow> Inr (concat ess)) validators of
        Inl e \<Rightarrow> Inl e
      | Inr ess \<Rightarrow> Inr (concat ess))"

text \<open>\<open>Validator.Visitor.mapShape\<close>: it walks \<open>Object.values\<close> and puts the value into the path.\<close>

definition map_validate :: "host \<Rightarrow> validator \<Rightarrow> validator" where
  "map_validate h item arr path =
     (case own_entries arr of
        Inl e \<Rightarrow> Inl e
      | Inr es \<Rightarrow>
         (case mapE (\<lambda>key. item key (field_path path (ToString h key))) (map snd es) of
            Inl e \<Rightarrow> Inl e
          | Inr ess \<Rightarrow> Inr (concat ess)))"

definition integer_validate :: "host \<Rightarrow> validator" where
  "integer_validate h v path =
     (if whole (case v of JNum n \<Rightarrow> n | _ \<Rightarrow> ToNumber h v) then Inr []
      else Inr [MkError ''integers must be whole numbers, but got: ${v}'' [v]])"

text \<open>\<open>Validator.Visitor.setShape\<close>: every member is validated at \<open>`${path}['${path}']`\<close>.\<close>

definition set_validate :: "validator \<Rightarrow> validator" where
  "set_validate item s path =
     (case Array_from s of
        Inl e \<Rightarrow> Inl e
      | Inr xs \<Rightarrow>
         (case mapE (\<lambda>i. item i (field_path path path)) xs of
            Inl e \<Rightarrow> Inl e
          | Inr ess \<Rightarrow> Inr (concat ess)))"

text \<open>The validators attached to a shape, \<open>Meta.get(shape, ['validator']).validator || []\<close>.\<close>

fun meta_validators :: "shape \<Rightarrow> validator list" where
  "meta_validators (Decorated vs s) = vs @ meta_validators s"
| "meta_validators _ = []"

text \<open>
  \<open>Validator.of\<close> and the visitor it dispatches to.  The struct handler fills
  its table by \<open>validators[name] = [of(member)]\<close>: for a field called
  \<open>__proto__\<close> that assignment replaces the prototype of the table, which is
  not modelled.
\<close>

fun Validator_of :: "host \<Rightarrow> shape \<Rightarrow> exn + validator"
  and Validator_visit :: "host \<Rightarrow> shape \<Rightarrow> exn + validator list"
where
  "Validator_of h shape =
     (case Validator_visit h shape of
        Inl e \<Rightarrow> Inl e
      | Inr vs \<Rightarrow> Inr (run_validators (meta_validators shape @ vs)))"
| "Validator_visit h (EnumShape Values) = Inr [enum_validate (map snd Values)]"
| "Validator_visit h (UnionShape Items) =
     (case sequenceE (map (\<lambda>item. case IsInstance_of item of Inl e \<Rightarrow> Inl e | Inr isType \<Rightarrow>
                                    case Validator_of h item of Inl e \<Rightarrow> Inl e | Inr v \<Rightarrow>
                                      Inr (isType, v)) Items) of
        Inl e \<Rightarrow> Inl e
      | Inr isTypes \<Rightarrow> Inr [union_validate isTypes])"
| "Validator_visit h (LiteralShape Type Value) =
     (case IsInstance_of Type of Inl e \<Rightarrow> Inl e | Inr isType \<Rightarrow> Inr [literal_validate isType Value])"
| "Validator_visit h NeverShape = Inr []"
| "Validator_visit h (FunctionShape args returns) = Inr []"
| "Validator_visit h NothingShape = Inr []"
| "Validator_visit h AnyShape = Inr []"
| "Validator_visit h (ArrayShape Items) =
     (case Validator_of h Items of Inl e \<Rightarrow> Inl e | Inr validateItem \<Rightarrow> Inr [array_validate validateItem])"
| "Validator_visit h BinaryShape = Inr []"
| "Validator_visit h BoolShape = Inr []"
| "Validator_visit h (StructShape nm Fields) =
     (case sequenceE (map (\<lambda>(name, member). case Validator_of h member of Inl e \<Rightarrow> Inl e
                                              | Inr v \<Rightarrow> Inr (name, [v])) Fields) of
        Inl e \<Rightarrow> Inl e
      | Inr vs \<Rightarrow> if ''__proto__'' \<in> fst ` set vs then Inl Unmodelled
                  else Inr [struct_validate (obj_assign [] vs)])"
| "Validator_visit h (MapShape Items) =
     (case Validator_of h Items of Inl e \<Rightarrow> Inl e | Inr item \<Rightarrow> Inr [map_validate h item])"
| "Validator_visit h NumberShape = Inr []"
| "Validator_visit h IntegerShape = Inr [integer_validate h]"
| "Validator_visit h (SetShape Items) =
     (case Validator_of h Items of Inl e \<Rightarrow> Inl e | Inr item \<Rightarrow> Inr [set_validate item])"
| "Validator_visit h StringShape = Inr []"
| "Validator_visit h TimestampShape = Inr []"
| "Validator_visit h (Decorated vs s) = Validator_visit h s"


declare Validator_of.simps [simp del]

text \<open>Compiling the validator of a shape and applying it.\<close>

definition validate_with :: "host \<Rightarrow> shape \<Rightarrow> jsval \<Rightarrow> string \<Rightarrow> exn + js_error list" where
  "validate_with h S v path = (case Validator_of h S of Inl e \<Rightarrow> Inl e | Inr validate \<Rightarrow> validate v path)"

text \<open>
  The length annotations \<open>MinLength\<close> and \<open>MaxLength\<close>: the \<open>validator\<close> array of
  the metadata they make.  \<open>validateLength\<close> compares \<open>s.length\<close> with the bound;
  a length that is \<open>undefined\<close> or NaN compares false, and one that is not a
  number at all is coerced, which is not modelled.
\<close>

definition compare_length :: "jsval \<Rightarrow> string \<Rightarrow> rat \<Rightarrow> bool option" where
  "compare_length l operation bound =
     (case l of
        JNum (Fin r) \<Rightarrow> Some (if operation = ''>'' then r > bound
                              else if operation = ''>='' then r \<ge> bound
                              else if operation = ''<'' then r < bound else r \<le> bound)
      | JNum NaN \<Rightarrow> Some False
      | JNum (Inf positive) \<Rightarrow> Some ((operation = ''>'' \<or> operation = ''>='') = positive)
      | JUndefined \<Rightarrow> Some False
      | _ \<Rightarrow> None)"

definition validateLength :: "string \<Rightarrow> jsval \<Rightarrow> rat \<Rightarrow> string \<Rightarrow> exn + js_error list" where
  "validateLength path s bound operation =
     (case js_length s of
        Inl e \<Rightarrow> Inl e
      | Inr l \<Rightarrow>
         (case compare_length l operation bound of
            None \<Rightarrow> Inl Unmodelled
          | Some isValid \<Rightarrow>
             if \<not> isValid then
               Inr [MkError ''at ${path}: expected string with length ${operation} ${length}, but received: ${s}''
                      [JStr path, JStr operation, JNum (Fin bound), s]]
             else Inr []))"

definition MaxLength :: "rat \<Rightarrow> bool \<Rightarrow> validator list" where
  "MaxLength bound exclusive = [\<lambda>s path. validateLength path s bound (if exclusive then ''<'' else ''<='')]"

definition MinLength :: "rat \<Rightarrow> bool \<Rightarrow> validator list" where
  "MinLength bound exclusive = [\<lambda>s path. validateLength path s bound (if exclusive then ''>'' else ''>='')]"

subsection \<open>Properties of validation\<close>

lemma sequenceE_map_Inr:
  "sequenceE (map f xs) = Inr ys \<Longrightarrow> length ys = length xs \<and> (\<forall>i<length xs. f (xs ! i) = Inr (ys ! i))"
proof (induction xs arbitrary: ys)
  case Nil
  then show ?case by simp
next
  case (Cons x xs)
  from Cons.prems obtain y ys' where y: "f x = Inr y" and ys': "sequenceE (map f xs) = Inr ys'"
    and ys: "ys = y # ys'" by (auto split: sum.splits)
  from Cons.IH[OF ys'] show ?case using y ys by (auto simp: nth_Cons split: nat.splits)
qed

lemma obj_set_fresh: "k \<notin> fst ` set es \<Longrightarrow> obj_set es k v = es @ [(k, v)]"
  by (induction es) auto

lemma obj_assign_fresh:
  "distinct (map fst es) \<Longrightarrow> fst ` set es \<inter> fst ` set tgt = {} \<Longrightarrow> obj_assign tgt es = tgt @ es"
  unfolding obj_assign_def
proof (induction es arbitrary: tgt)
  case Nil
  then show ?case by simp
next
  case (Cons p es)
  obtain k v where p: "p = (k, v)" by (cases p)
  have f: "obj_set tgt k v = tgt @ [(k, v)]" using Cons.prems(2) p by (intro obj_set_fresh) auto
  have "fold (\<lambda>(k, v) acc. obj_set acc k v) es (tgt @ [(k, v)]) = (tgt @ [(k, v)]) @ es"
    using Cons.prems p by (intro Cons.IH) auto
  then show ?case using p f by simp
qed

lemma obj_assign_distinct: "distinct (map fst es) \<Longrightarrow> obj_assign [] es = es"
  using obj_assign_fresh[of es "[]"] by simp

lemma run_validators_single: "run_validators [v] a path = v a path"
  by (simp add: run_validators_def split: sum.splits)

lemma union_validate_none:
  "length isTypes = length vals \<Longrightarrow> (\<forall>i<length isTypes. (isTypes ! i) item = Inr False) \<Longrightarrow>
   union_validate (zip isTypes vals) item path = Inr []"
proof (induction isTypes vals rule: list_induct2)
  case Nil
  then show ?case by simp
next
  case (Cons t ts v vs)
  have "t item = Inr False" using Cons.prems by auto
  moreover have "\<forall>i<length ts. (ts ! i) item = Inr False" using Cons.prems by auto
  ultimately show ?case using Cons.IH by simp
qed

lemma union_validate_first:
  "length isTypes = length vals \<Longrightarrow> i < length isTypes \<Longrightarrow> (isTypes ! i) item = Inr True \<Longrightarrow>
   (\<forall>j<i. (isTypes ! j) item = Inr False) \<Longrightarrow>
   union_validate (zip isTypes vals) item path = (vals ! i) item path"
proof (induction isTypes vals arbitrary: i rule: list_induct2)
  case Nil
  then show ?case by simp
next
  case (Cons t ts v vs)
  show ?case
  proof (cases i)
    case 0
    then show ?thesis using Cons.prems by simp
  next
    case (Suc k)
    have t: "t item = Inr False" using Cons.prems(3) Suc by auto
    have "\<forall>j<k. (ts ! j) item = Inr False" using Cons.prems(3) Suc by auto
    then have "union_validate (zip ts vs) item path = (vs ! k) item path"
      using Cons.IH[of k] Cons.prems Suc by simp
    then show ?thesis using t Suc by simp
  qed
qed

lemma union_validate_throws:
  "length isTypes = length vals \<Longrightarrow> i < length isTypes \<Longrightarrow> (isTypes ! i) item = Inl e \<Longrightarrow>
   (\<forall>j<i. (isTypes ! j) item = Inr False) \<Longrightarrow>
   union_validate (zip isTypes vals) item path = Inl e"
proof (induction isTypes vals arbitrary: i rule: list_induct2)
  case Nil
  then show ?case by simp
next
  case (Cons t ts v vs)
  show ?case
  proof (cases i)
    case 0
    then show ?thesis using Cons.prems by simp
  next
    case (Suc k)
    have t: "t item = Inr False" using Cons.prems(3) Suc by auto
    have "\<forall>j<k. (ts ! j) item = Inr False" using Cons.prems(3) Suc by auto
    then have "union_validate (zip ts vs) item path = Inl e"
      using Cons.IH[of k] Cons.prems Suc by simp
    then show ?thesis using t Suc by simp
  qed
qed

lemma mapE_append:
  "mapE f (xs @ ys) =
     (case mapE f xs of Inl e \<Rightarrow> Inl e
      | Inr as \<Rightarrow> (case mapE f ys of Inl e \<Rightarrow> Inl e | Inr bs \<Rightarrow> Inr (as @ bs)))"
  by (induction xs) (auto split: sum.splits)

lemma run_validators_snoc:
  "run_validators (vs @ [u]) a path =
     (case run_validators vs a path of Inl e \<Rightarrow> Inl e
      | Inr own \<Rightarrow> (case u a path of Inl e \<Rightarrow> Inl e | Inr ds \<Rightarrow> Inr (own @ ds)))"
  by (simp add: run_validators_def mapE_append split: sum.splits)

lemma Validator_visit_undecorated: "Validator_visit h S = Validator_visit h (undecorated S)"
  by (induction S rule: undecorated.induct) simp_all

text \<open>
  C10, as stated, at an optional string that carries the annotation
  \<open>MinLength(2)\<close> and the value \<open>1\<close>: no variant's instance check accepts the
  value, and the compiled validator of the union reports a diagnostic, the
  one of the annotation attached to the union itself.
\<close>

theorem union_validator_counterexample:
  "instance_check StringShape (JNum (Fin 1)) = Inr False \<and>
   instance_check NothingShape (JNum (Fin 1)) = Inr False \<and>
   validate_with example_host (Decorated (MinLength 2 False) (UnionShape [StringShape, NothingShape]))
                 (JNum (Fin 1)) ''$'' =
     Inr [MkError ''at ${path}: expected string with length ${operation} ${length}, but received: ${s}''
            [JStr ''$'', JStr ''>='', JNum (Fin 2), JNum (Fin 1)]]"
proof -
  let ?S = "Decorated (MinLength 2 False) (UnionShape [StringShape, NothingShape])"
  have c: "Validator_of example_host ?S =
      Inr (run_validators (MinLength 2 False @
        [union_validate [(\<lambda>a. Inr (js_typeof a = ''string''), run_validators []),
                         (\<lambda>a. Inr (a = JUndefined \<or> a = JNull), run_validators [])]]))"
    by (simp add: Validator_of.simps[of _ ?S] Validator_of.simps[of _ StringShape]
        Validator_of.simps[of _ NothingShape])
  show ?thesis unfolding validate_with_def c
    by (simp add: instance_check_def js_typeof_def MinLength_def run_validators_def validateLength_def
        js_length_def compare_length_def)
qed

text \<open>
  C10, amended.  The compiled validator of a union shape first runs the
  validators attached to the union itself (an undecorated union has none),
  then the validator that the union handler contributes.  That one looks for
  the first variant, in order, whose instance check accepts the value: when
  every check answers \<open>false\<close> it adds no diagnostic, so the result is what the
  union's own validators report (nothing for an undecorated union); when a
  check accepts, it adds what the validator of that variant returns and looks
  no further; and when a check throws before any accepts, the validation
  throws.
\<close>

theorem union_validator_first_match:
  "undecorated S = UnionShape Items \<Longrightarrow> Validator_of h S = Inr validate \<Longrightarrow>
   \<exists>isTypes vals. length isTypes = length Items \<and> length vals = length Items \<and>
     (\<forall>i<length Items. IsInstance_of (Items ! i) = Inr (isTypes ! i) \<and>
                         Validator_of h (Items ! i) = Inr (vals ! i)) \<and>
     (\<forall>item path. (\<forall>i<length Items. (isTypes ! i) item = Inr False) \<longrightarrow>
        validate item path = run_validators (meta_validators S) item path \<and>
        (meta_validators S = [] \<longrightarrow> validate item path = Inr [])) \<and>
     (\<forall>item path i. i < length Items \<and> (isTypes ! i) item = Inr True \<and>
                      (\<forall>j<i. (isTypes ! j) item = Inr False) \<longrightarrow>
        validate item path =
          (case run_validators (meta_validators S) item path of
             Inl e \<Rightarrow> Inl e
           | Inr own \<Rightarrow> (case (vals ! i) item path of Inl e \<Rightarrow> Inl e | Inr ds \<Rightarrow> Inr (own @ ds)))) \<and>
     (\<forall>item path i e. i < length Items \<and> (isTypes ! i) item = Inl e \<and>
                      (\<forall>j<i. (isTypes ! j) item = Inr False) \<longrightarrow>
        validate item path =
          (case run_validators (meta_validators S) item path of Inl e' \<Rightarrow> Inl e' | Inr own \<Rightarrow> Inl e))"
proof -
  assume u: "undecorated S = UnionShape Items" and a: "Validator_of h S = Inr validate"
  let ?f = "\<lambda>item. case IsInstance_of item of Inl e \<Rightarrow> Inl e | Inr isType \<Rightarrow>
                     case Validator_of h item of Inl e \<Rightarrow> Inl e | Inr v \<Rightarrow> Inr (isType, v)"
  let ?own = "run_validators (meta_validators S)"
  have vv: "Validator_visit h S = Validator_visit h (UnionShape Items)"
    using Validator_visit_undecorated[of h S] u by simp
  from a obtain ps where ps: "sequenceE (map ?f Items) = Inr ps"
    and v: "validate = run_validators (meta_validators S @ [union_validate ps])"
    by (subst (asm) Validator_of.simps) (auto simp: vv split: sum.splits)
  note sq = sequenceE_map_Inr[OF ps]
  let ?ts = "map fst ps" and ?vs = "map snd ps"
  have z: "zip ?ts ?vs = ps" by (simp add: zip_map_fst_snd)
  have len: "length ?ts = length Items" "length ?vs = length Items" using sq by simp_all
  have comp: "IsInstance_of (Items ! i) = Inr (?ts ! i) \<and> Validator_of h (Items ! i) = Inr (?vs ! i)"
    if "i < length Items" for i
  proof -
    have e: "?f (Items ! i) = Inr (ps ! i)" using sq that by blast
    have l: "i < length ps" using sq that by simp
    show ?thesis using e l
      by (cases "IsInstance_of (Items ! i)"; cases "Validator_of h (Items ! i)")
         (auto dest: arg_cong[where f = fst] arg_cong[where f = snd])
  qed
  have run: "validate item path =
      (case ?own item path of Inl e \<Rightarrow> Inl e
       | Inr own \<Rightarrow> (case union_validate (zip ?ts ?vs) item path of
                        Inl e \<Rightarrow> Inl e | Inr ds \<Rightarrow> Inr (own @ ds)))" for item path
    by (simp only: v z run_validators_snoc)
  have none: "validate item path = ?own item path \<and> (meta_validators S = [] \<longrightarrow> validate item path = Inr [])"
    if "\<forall>i<length Items. (?ts ! i) item = Inr False" for item path
  proof -
    from that len have f: "\<forall>i<length ?ts. (?ts ! i) item = Inr False" by auto
    have n: "union_validate (zip ?ts ?vs) item path = Inr []"
      by (rule union_validate_none[OF _ f]) simp
    have 1: "validate item path = ?own item path"
      unfolding run n by (simp split: sum.splits)
    have 2: "validate item path = Inr []" if "meta_validators S = []"
      unfolding 1 using that by (simp add: run_validators_def)
    from 1 2 show ?thesis by blast
  qed
  have first: "validate item path =
      (case ?own item path of Inl e \<Rightarrow> Inl e
       | Inr own \<Rightarrow> (case (?vs ! i) item path of Inl e \<Rightarrow> Inl e | Inr ds \<Rightarrow> Inr (own @ ds)))"
    if "i < length Items \<and> (?ts ! i) item = Inr True \<and> (\<forall>j<i. (?ts ! j) item = Inr False)" for item path i
  proof -
    from that len have i: "i < length ?ts" and t: "(?ts ! i) item = Inr True"
      and f: "\<forall>j<i. (?ts ! j) item = Inr False" by auto
    have x: "union_validate (zip ?ts ?vs) item path = (?vs ! i) item path"
      by (rule union_validate_first[OF _ i t f]) simp
    show ?thesis by (simp only: run x)
  qed
  have throws: "validate item path = (case ?own item path of Inl e' \<Rightarrow> Inl e' | Inr own \<Rightarrow> Inl e)"
    if "i < length Items \<and> (?ts ! i) item = Inl e \<and> (\<forall>j<i. (?ts ! j) item = Inr False)" for item path i e
  proof -
    from that len have i: "i < length ?ts" and t: "(?ts ! i) item = Inl e"
      and f: "\<forall>j<i. (?ts ! j) item = Inr False" by auto
    have x: "union_validate (zip ?ts ?vs) item path = Inl e"
      by (rule union_validate_throws[OF _ i t f]) simp
    show ?thesis by (simp only: run x sum.case)
  qed
  show ?thesis
    by (rule exI[of _ ?ts], rule exI[of _ ?vs]) (use len comp none first throws in blast)
qed

theorem union_validator_first_match_witness:
  "\<exists>validate. Validator_of example_host (Decorated (MinLength 2 False) (UnionShape [StringShape, IntegerShape]))
                 = Inr validate \<and>
      validate (JBool True) ''$'' =
        Inr [MkError ''at ${path}: expected string with length ${operation} ${length}, but received: ${s}''
               [JStr ''$'', JStr ''>='', JNum (Fin 2), JBool True]] \<and>
      validate (JStr ''a'') ''$'' =
        Inr [MkError ''at ${path}: expected string with length ${operation} ${length}, but received: ${s}''
               [JStr ''$'', JStr ''>='', JNum (Fin 2), JStr ''a'']] \<and>
      validate (JStr ''abc'') ''$'' = Inr []"
proof -
  let ?h = example_host
  let ?Items = "[StringShape, IntegerShape]"
  let ?S = "Decorated (MinLength 2 False) (UnionShape ?Items)"
  let ?E = "\<lambda>v. MkError ''at ${path}: expected string with length ${operation} ${length}, but received: ${s}''
               [JStr ''$'', JStr ''>='', JNum (Fin 2), v]"
  have u: "undecorated ?S = UnionShape ?Items" by simp
  obtain validate where v: "Validator_of ?h ?S = Inr validate"
    by (simp add: Validator_of.simps[of ?h ?S] Validator_of.simps[of ?h IntegerShape]
          Validator_of.simps[of ?h StringShape])
  from union_validator_first_match[OF u v] obtain isTypes vals where
    c: "\<forall>i<length ?Items. IsInstance_of (?Items ! i) = Inr (isTypes ! i) \<and>
                            Validator_of ?h (?Items ! i) = Inr (vals ! i)"
    and n: "\<forall>item path. (\<forall>i<length ?Items. (isTypes ! i) item = Inr False) \<longrightarrow>
        validate item path = run_validators (meta_validators ?S) item path \<and>
        (meta_validators ?S = [] \<longrightarrow> validate item path = Inr [])"
    and f: "\<forall>item path i. i < length ?Items \<and> (isTypes ! i) item = Inr True \<and>
                      (\<forall>j<i. (isTypes ! j) item = Inr False) \<longrightarrow>
        validate item path =
          (case run_validators (meta_validators ?S) item path of
             Inl e \<Rightarrow> Inl e
           | Inr own \<Rightarrow> (case (vals ! i) item path of Inl e \<Rightarrow> Inl e | Inr ds \<Rightarrow> Inr (own @ ds)))"
    by blast
  have t0: "isTypes ! 0 = (\<lambda>a. Inr (js_typeof a = ''string''))"
    using c[rule_format, of 0] by simp
  have t1: "isTypes ! Suc 0 = (\<lambda>a. Inr (js_typeof a = ''number''))"
    using c[rule_format, of 1] by simp
  have v0: "vals ! 0 = run_validators []"
    using c[rule_format, of 0] by (simp add: Validator_of.simps[of ?h StringShape])
  note ev = MinLength_def run_validators_def validateLength_def js_length_def compare_length_def
  have "\<forall>i<length ?Items. (isTypes ! i) (JBool True) = Inr False"
    using t0 t1 by (auto simp: less_Suc_eq js_typeof_def)
  with n have "validate (JBool True) ''$'' = run_validators (meta_validators ?S) (JBool True) ''$''"
    by blast
  then have r1: "validate (JBool True) ''$'' = Inr [?E (JBool True)]" by (simp add: ev)
  have a0: "0 < length ?Items \<and> (isTypes ! 0) (JStr s) = Inr True \<and>
        (\<forall>j<0. (isTypes ! j) (JStr s) = Inr False)" for s
    using t0 by (simp add: js_typeof_def)
  have r: "validate (JStr s) ''$'' =
          (case run_validators (meta_validators ?S) (JStr s) ''$'' of
             Inl e \<Rightarrow> Inl e
           | Inr own \<Rightarrow> (case (vals ! 0) (JStr s) ''$'' of Inl e \<Rightarrow> Inl e | Inr ds \<Rightarrow> Inr (own @ ds)))" for s
    using f a0[of s] by blast
  have r2: "validate (JStr ''a'') ''$'' = Inr [?E (JStr ''a'')]"
    by (simp add: r v0 ev)
  have r3: "validate (JStr ''abc'') ''$'' = Inr []"
    by (simp add: r v0 ev)
  from v r1 r2 r3 show ?thesis by blast
qed

text \<open>
  C8, as stated, at a struct with two integer fields whose values are both
  \<open>1.5\<close>: the two diagnostics are the same \<open>Error\<close>, which names no path; and at
  a struct whose first field is a list that the value lacks and whose second
  field is an invalid integer: the list validator calls \<open>map\<close> on \<open>undefined\<close>,
  the validation throws and reports nothing.
\<close>

theorem struct_validator_counterexample:
  "validate_with example_host (StructShape ''T'' [(''a'', IntegerShape), (''b'', IntegerShape)])
     (JObj [(''a'', JNum (Fin (3 / 2))), (''b'', JNum (Fin (3 / 2)))]) ''$'' =
     Inr [MkError ''integers must be whole numbers, but got: ${v}'' [JNum (Fin (3 / 2))],
          MkError ''integers must be whole numbers, but got: ${v}'' [JNum (Fin (3 / 2))]] \<and>
   validate_with example_host (StructShape ''T'' [(''tags'', ArrayShape StringShape), (''n'', IntegerShape)])
     (JObj [(''n'', JNum (Fin (3 / 2)))]) ''$'' = Inl TypeError"
proof -
  have fl: "\<lfloor>3 / 2 :: rat\<rfloor> = 1" by (simp add: floor_eq_iff)
  show ?thesis
    by (simp add: validate_with_def
        Validator_of.simps[of _ "StructShape ''T'' [(''a'', IntegerShape), (''b'', IntegerShape)]"]
        Validator_of.simps[of _ "StructShape ''T'' [(''tags'', ArrayShape StringShape), (''n'', IntegerShape)]"]
        Validator_of.simps[of _ IntegerShape] Validator_of.simps[of _ "ArrayShape StringShape"]
        Validator_of.simps[of _ StringShape]
        obj_assign_def run_validators_def struct_validate_def js_get_def own_entries_def
        inherited_def object_prototype_def integer_validate_def whole_def fl array_validate_def)
qed

lemma mapE_cong_nth:
  "length xs = length ys \<Longrightarrow> (\<forall>i<length xs. f (xs ! i) = g (ys ! i)) \<Longrightarrow> mapE f xs = mapE g ys"
proof (induction xs ys rule: list_induct2)
  case Nil
  then show ?case by simp
next
  case (Cons x xs y ys)
  have "f x = g y" using Cons.prems by auto
  moreover have "\<forall>i<length xs. f (xs ! i) = g (ys ! i)" using Cons.prems by auto
  ultimately show ?case using Cons.IH by (simp split: sum.splits)
qed

lemma mapE_all_Inr:
  "(\<forall>i<length xs. f (xs ! i) = Inr (ys ! i)) \<Longrightarrow> length ys = length xs \<Longrightarrow> mapE f xs = Inr ys"
proof (induction xs arbitrary: ys)
  case Nil
  then show ?case by simp
next
  case (Cons x xs)
  from Cons.prems(2) obtain y ys' where ys: "ys = y # ys'" by (cases ys) auto
  have "f x = Inr y" using Cons.prems(1)[rule_format, of 0] ys by simp
  moreover have "\<forall>i<length xs. f (xs ! i) = Inr (ys' ! i)"
    using Cons.prems(1) ys by (auto dest: spec[where x = "Suc _"])
  ultimately show ?case using Cons.IH[of ys'] Cons.prems(2) ys by simp
qed

lemma mapE_first_Inl:
  "i < length xs \<Longrightarrow> f (xs ! i) = Inl e \<Longrightarrow> (\<forall>j<i. \<exists>y. f (xs ! j) = Inr y) \<Longrightarrow> mapE f xs = Inl e"
proof (induction xs arbitrary: i)
  case Nil
  then show ?case by simp
next
  case (Cons x xs)
  show ?case
  proof (cases i)
    case 0
    then show ?thesis using Cons.prems by simp
  next
    case (Suc k)
    obtain y where y: "f x = Inr y" using Cons.prems(3) Suc by auto
    have "\<forall>j<k. \<exists>y. f (xs ! j) = Inr y" using Cons.prems(3) Suc by auto
    then have "mapE f xs = Inl e" using Cons.IH[of k] Cons.prems Suc by simp
    then show ?thesis using y by simp
  qed
qed

text \<open>
  C8, amended.  The compiled validator of a struct first runs the validators
  attached to the struct itself, then gives every field's validator, in
  declaration order, the value \<open>obj[name]\<close> and the nested path
  \<open>path['name']\<close>.  When none of these calls throws it returns all their
  diagnostics, concatenated in that order: a diagnostic of one field never
  suppresses those of another.  When a call throws, the validation throws
  with the first such exception and reports nothing.  The diagnostic of an
  enum field names the nested path it was given; whether another validator
  puts the path into its diagnostics is up to that validator.
\<close>

theorem struct_validator_collects_all:
  "undecorated S = StructShape nm Fields \<Longrightarrow> distinct (map fst Fields) \<Longrightarrow>
   Validator_of h S = Inr validate \<Longrightarrow>
   \<exists>vals. length vals = length Fields \<and>
     (\<forall>i<length Fields. Validator_of h (snd (Fields ! i)) = Inr (vals ! i)) \<and>
     (\<forall>obj path own dss.
        run_validators (meta_validators S) obj path = Inr own \<and> length dss = length Fields \<and>
        (\<forall>i<length Fields. \<exists>x. js_get obj (fst (Fields ! i)) = Inr x \<and>
           (vals ! i) x (path @ ''['' @ [CHR 0x27] @ fst (Fields ! i) @ [CHR 0x27] @ '']'') = Inr (dss ! i)) \<longrightarrow>
        validate obj path = Inr (own @ concat dss)) \<and>
     (\<forall>obj path own i e.
        run_validators (meta_validators S) obj path = Inr own \<and> i < length Fields \<and>
        (js_get obj (fst (Fields ! i)) = Inl e \<or>
         (\<exists>x. js_get obj (fst (Fields ! i)) = Inr x \<and>
           (vals ! i) x (path @ ''['' @ [CHR 0x27] @ fst (Fields ! i) @ [CHR 0x27] @ '']'') = Inl e)) \<and>
        (\<forall>j<i. \<exists>x ds. js_get obj (fst (Fields ! j)) = Inr x \<and>
           (vals ! j) x (path @ ''['' @ [CHR 0x27] @ fst (Fields ! j) @ [CHR 0x27] @ '']'') = Inr ds) \<longrightarrow>
        validate obj path = Inl e) \<and>
     (\<forall>i<length Fields. \<forall>Values x p.
        snd (Fields ! i) = EnumShape Values \<and> x \<notin> set (map JStr (map snd Values)) \<longrightarrow>
        (vals ! i) x p =
          Inr [if js_typeof x \<noteq> ''string''
               then MkError ''expected string value for enum, got ${item} at ${path}'' [x, JStr p]
               else MkError ''expected one of (${values.join(,)}), got ${item} at ${path}''
                      [JStr (join '','' (map snd Values)), x, JStr p]])"
proof -
  assume u: "undecorated S = StructShape nm Fields" and d: "distinct (map fst Fields)"
    and a: "Validator_of h S = Inr validate"
  let ?f = "\<lambda>(name, member). case Validator_of h member of Inl e \<Rightarrow> Inl e | Inr v \<Rightarrow> Inr (name, [v])"
  let ?own = "run_validators (meta_validators S)"
  have vv: "Validator_visit h S = Validator_visit h (StructShape nm Fields)"
    using Validator_visit_undecorated[of h S] u by simp
  from a obtain ps where ps: "sequenceE (map ?f Fields) = Inr ps"
    and v: "validate = run_validators (meta_validators S @ [struct_validate (obj_assign [] ps)])"
    by (subst (asm) Validator_of.simps) (auto simp: vv split: sum.splits if_splits)
  note sq = sequenceE_map_Inr[OF ps]
  have e: "Validator_of h (snd (Fields ! i)) = Inr (hd (snd (ps ! i))) \<and> ps ! i = (fst (Fields ! i), [hd (snd (ps ! i))])"
    if "i < length Fields" for i
  proof -
    have "?f (Fields ! i) = Inr (ps ! i)" using sq that by blast
    then have "Inr (ps ! i) = ?f (Fields ! i)" by simp
    then show ?thesis
      by (cases "Fields ! i"; cases "Validator_of h (snd (Fields ! i))") auto
  qed
  let ?vals = "map (\<lambda>p. hd (snd p)) ps"
  have ek: "fst (ps ! i) = fst (Fields ! i)" if "i < length Fields" for i
    using e[OF that] by (metis fst_conv)
  have keys: "map fst ps = map fst Fields"
  proof (rule nth_equalityI)
    show "length (map fst ps) = length (map fst Fields)" using sq by simp
    show "map fst ps ! i = map fst Fields ! i" if "i < length (map fst ps)" for i
      using that sq ek by simp
  qed
  then have "distinct (map fst ps)" using d by simp
  then have oa: "obj_assign [] ps = ps" by (rule obj_assign_distinct)
  have len: "length ?vals = length Fields" using sq by simp
  have comp: "\<forall>i<length Fields. Validator_of h (snd (Fields ! i)) = Inr (?vals ! i)"
    using e sq by simp
  have np: "field_path path n = path @ ''['' @ [CHR 0x27] @ n @ [CHR 0x27] @ '']''" for path n
    by (simp add: field_path_def sq_def)
  define call where "call obj path i =
      (case js_get obj (fst (Fields ! i)) of Inl e \<Rightarrow> Inl e
       | Inr x \<Rightarrow> (?vals ! i) x (path @ ''['' @ [CHR 0x27] @ fst (Fields ! i) @ [CHR 0x27] @ '']''))"
    for obj path i
  have run: "validate obj path =
        (case ?own obj path of Inl e \<Rightarrow> Inl e
         | Inr own \<Rightarrow> (case mapE (call obj path) [0..<length Fields] of
                          Inl e \<Rightarrow> Inl e | Inr ess \<Rightarrow> Inr (own @ concat ess)))" for obj path
  proof -
    let ?g = "\<lambda>(name, vs). case mapE (\<lambda>v. case js_get obj name of Inl e \<Rightarrow> Inl e
                                 | Inr x \<Rightarrow> v x (field_path path name)) vs of
                Inl e \<Rightarrow> Inl e | Inr ess \<Rightarrow> Inr (concat ess)"
    have "mapE ?g ps = mapE (call obj path) [0..<length Fields]"
    proof (rule mapE_cong_nth)
      show "length ps = length [0..<length Fields]" using sq by simp
      show "\<forall>i<length ps. ?g (ps ! i) = call obj path ([0..<length Fields] ! i)"
      proof (intro allI impI)
        fix i assume i: "i < length ps"
        then have il: "i < length Fields" using sq by simp
        have p: "ps ! i = (fst (Fields ! i), [hd (snd (ps ! i))])" using e[OF il] by simp
        have h: "?vals ! i = hd (snd (ps ! i))" using i by simp
        show "?g (ps ! i) = call obj path ([0..<length Fields] ! i)"
          by (subst p) (simp add: il call_def h np split: sum.splits)
      qed
    qed
    then show ?thesis
      by (simp add: v run_validators_snoc struct_validate_def oa split: sum.splits)
  qed
  have all: "validate obj path = Inr (own @ concat dss)"
    if "?own obj path = Inr own \<and> length dss = length Fields \<and>
        (\<forall>i<length Fields. \<exists>x. js_get obj (fst (Fields ! i)) = Inr x \<and>
           (?vals ! i) x (path @ ''['' @ [CHR 0x27] @ fst (Fields ! i) @ [CHR 0x27] @ '']'') = Inr (dss ! i))"
    for obj path own dss
  proof -
    have "\<forall>i<length [0..<length Fields]. call obj path ([0..<length Fields] ! i) = Inr (dss ! i)"
      using that by (auto simp: call_def)
    then have "mapE (call obj path) [0..<length Fields] = Inr dss"
      using that by (intro mapE_all_Inr) simp_all
    then show ?thesis using that by (simp add: run)
  qed
  have throws: "validate obj path = Inl e"
    if "?own obj path = Inr own \<and> i < length Fields \<and>
        (js_get obj (fst (Fields ! i)) = Inl e \<or>
         (\<exists>x. js_get obj (fst (Fields ! i)) = Inr x \<and>
           (?vals ! i) x (path @ ''['' @ [CHR 0x27] @ fst (Fields ! i) @ [CHR 0x27] @ '']'') = Inl e)) \<and>
        (\<forall>j<i. \<exists>x ds. js_get obj (fst (Fields ! j)) = Inr x \<and>
           (?vals ! j) x (path @ ''['' @ [CHR 0x27] @ fst (Fields ! j) @ [CHR 0x27] @ '']'') = Inr ds)"
    for obj path own i e
  proof -
    have i: "i < length [0..<length Fields]" using that by simp
    have 1: "call obj path ([0..<length Fields] ! i) = Inl e"
      using that by (auto simp: call_def)
    have 2: "\<forall>j<i. \<exists>y. call obj path ([0..<length Fields] ! j) = Inr y"
    proof (intro allI impI)
      fix j assume j: "j < i"
      then have jl: "j < length Fields" using that by simp
      from that j obtain x ds where "js_get obj (fst (Fields ! j)) = Inr x"
        "(?vals ! j) x (path @ ''['' @ [CHR 0x27] @ fst (Fields ! j) @ [CHR 0x27] @ '']'') = Inr ds"
        by blast
      then show "\<exists>y. call obj path ([0..<length Fields] ! j) = Inr y"
        using jl by (simp add: call_def)
    qed
    have "mapE (call obj path) [0..<length Fields] = Inl e"
      by (rule mapE_first_Inl[OF i 1 2])
    then show ?thesis using that by (simp add: run)
  qed
  have enum: "(?vals ! i) x p =
          Inr [if js_typeof x \<noteq> ''string''
               then MkError ''expected string value for enum, got ${item} at ${path}'' [x, JStr p]
               else MkError ''expected one of (${values.join(,)}), got ${item} at ${path}''
                      [JStr (join '','' (map snd Values)), x, JStr p]]"
    if "i < length Fields" "snd (Fields ! i) = EnumShape Values \<and> x \<notin> set (map JStr (map snd Values))"
    for i Values x p
  proof -
    have "Validator_of h (EnumShape Values) = Inr (?vals ! i)" using comp that by auto
    then have "?vals ! i = run_validators [enum_validate (map snd Values)]"
      by (simp add: Validator_of.simps[of h "EnumShape Values"])
    then show ?thesis using that(2)
      by (simp add: run_validators_single enum_validate_def)
  qed
  show ?thesis
    by (rule exI[of _ ?vals]) (use len comp all throws enum in blast)
qed

theorem struct_validator_collects_all_witness:
  "\<exists>validate.
      Validator_of example_host
        (StructShape ''T'' [(''a'', EnumShape [(''UP'', ''UP'')]), (''b'', EnumShape [(''UP'', ''UP'')])])
        = Inr validate \<and>
      validate (JObj [(''a'', JStr ''X''), (''b'', JNum (Fin 1))]) ''$'' =
        Inr [MkError ''expected one of (${values.join(,)}), got ${item} at ${path}''
               [JStr ''UP'', JStr ''X'', JStr (''$['' @ [CHR 0x27] @ ''a'' @ [CHR 0x27] @ '']'')],
             MkError ''expected string value for enum, got ${item} at ${path}''
               [JNum (Fin 1), JStr (''$['' @ [CHR 0x27] @ ''b'' @ [CHR 0x27] @ '']'')]]"
proof -
  let ?h = example_host
  let ?E = "EnumShape [(''UP'', ''UP'')]"
  let ?Fields = "[(''a'', ?E), (''b'', ?E)]"
  let ?S = "StructShape ''T'' ?Fields"
  let ?obj = "JObj [(''a'', JStr ''X''), (''b'', JNum (Fin 1))]"
  let ?da = "MkError ''expected one of (${values.join(,)}), got ${item} at ${path}''
               [JStr ''UP'', JStr ''X'', JStr (''$['' @ [CHR 0x27] @ ''a'' @ [CHR 0x27] @ '']'')]"
  let ?db = "MkError ''expected string value for enum, got ${item} at ${path}''
               [JNum (Fin 1), JStr (''$['' @ [CHR 0x27] @ ''b'' @ [CHR 0x27] @ '']'')]"
  have u: "undecorated ?S = StructShape ''T'' ?Fields" by simp
  have d: "distinct (map fst ?Fields)" by simp
  obtain validate where v: "Validator_of ?h ?S = Inr validate"
    by (simp add: Validator_of.simps[of ?h ?S] Validator_of.simps[of ?h ?E])
  from struct_validator_collects_all[OF u d v] obtain vals :: "validator list" where
    l: "length vals = length ?Fields"
    and r: "\<forall>obj path own dss.
        run_validators (meta_validators ?S) obj path = Inr own \<and> length dss = length ?Fields \<and>
        (\<forall>i<length ?Fields. \<exists>x. js_get obj (fst (?Fields ! i)) = Inr x \<and>
           (vals ! i) x (path @ ''['' @ [CHR 0x27] @ fst (?Fields ! i) @ [CHR 0x27] @ '']'') = Inr (dss ! i)) \<longrightarrow>
        validate obj path = Inr (own @ concat dss)"
    and en: "\<forall>i<length ?Fields. \<forall>Values x p.
        snd (?Fields ! i) = EnumShape Values \<and> x \<notin> set (map JStr (map snd Values)) \<longrightarrow>
        (vals ! i) x p =
          Inr [if js_typeof x \<noteq> ''string''
               then MkError ''expected string value for enum, got ${item} at ${path}'' [x, JStr p]
               else MkError ''expected one of (${values.join(,)}), got ${item} at ${path}''
                      [JStr (join '','' (map snd Values)), x, JStr p]]"
    by blast
  have ga: "js_get ?obj ''a'' = Inr (JStr ''X'')" and gb: "js_get ?obj ''b'' = Inr (JNum (Fin 1))"
    by (simp_all add: js_get_def own_entries_def)
  have va: "(vals ! 0) (JStr ''X'') (''$['' @ [CHR 0x27] @ ''a'' @ [CHR 0x27] @ '']'') = Inr [?da]"
    using en[rule_format, of 0 "[(''UP'', ''UP'')]" "JStr ''X''"] by (simp add: js_typeof_def)
  have vb: "(vals ! Suc 0) (JNum (Fin 1)) (''$['' @ [CHR 0x27] @ ''b'' @ [CHR 0x27] @ '']'') = Inr [?db]"
    using en[rule_format, of 1 "[(''UP'', ''UP'')]" "JNum (Fin 1)"] by (simp add: js_typeof_def)
  have "run_validators (meta_validators ?S) ?obj ''$'' = Inr [] \<and> length [[?da], [?db]] = length ?Fields \<and>
        (\<forall>i<length ?Fields. \<exists>x. js_get ?obj (fst (?Fields ! i)) = Inr x \<and>
           (vals ! i) x (''$'' @ ''['' @ [CHR 0x27] @ fst (?Fields ! i) @ [CHR 0x27] @ '']'') = Inr ([[?da], [?db]] ! i))"
    using ga gb va vb by (simp add: run_validators_def less_Suc_eq)
  then have "validate ?obj ''$'' = Inr ([] @ concat [[?da], [?db]])"
    using r by blast
  then show ?thesis using v by simp
qed

section \<open>The attribute codec (mapper.ts)\<close>

text \<open>
  Modelled from the spec: \<open>isOptional\<close> (its code is not among the sources).
  ``Optionality is not a distinct variant: field may be absent is represented
  as a Union containing the Nothing scalar among its variants.''
\<close>

fun isNothingShape :: "shape \<Rightarrow> bool" where
  "isNothingShape NothingShape = True"
| "isNothingShape (Decorated vs s) = isNothingShape s"
| "isNothingShape _ = False"

fun isOptional :: "shape \<Rightarrow> bool" where
  "isOptional (UnionShape Items) = (\<exists>i \<in> set Items. isNothingShape i)"
| "isOptional (Decorated vs s) = isOptional s"
| "isOptional _ = False"

text \<open>
  \<open>assertHasKey\<close>: it reads \<open>value[key]\<close> (a \<open>TypeError\<close> on \<open>null\<close> and
  \<open>undefined\<close>); where that is \<open>undefined\<close> it creates an \<open>Error\<close> object, does not
  throw it, and returns \<open>true\<close> like everywhere else.
\<close>

definition assertHasKey :: "string \<Rightarrow> jsval \<Rightarrow> exn + bool" where
  "assertHasKey key v = (case js_get v key of Inl e \<Rightarrow> Inl e | Inr _ \<Rightarrow> Inr True)"

definition assertIsType :: "string \<Rightarrow> jsval \<Rightarrow> exn + bool" where
  "assertIsType type v =
     (if js_typeof v \<noteq> type then
        Inl (Thrown (MkError ''expected type ${type}, but got: ${typeof value}'' [JStr type, JStr (js_typeof v)]))
      else Inr True)"

text \<open>
  \<open>xs.map(f)\<close>: only an array and a buffer have the method, and the typed
  array that a buffer would give is not modelled.
\<close>

definition array_map :: "(jsval \<Rightarrow> exn + jsval) \<Rightarrow> jsval \<Rightarrow> exn + jsval" where
  "array_map f v =
     (case v of
        JArr xs \<Rightarrow> (case mapE f xs of Inl e \<Rightarrow> Inl e | Inr ys \<Rightarrow> Inr (JArr ys))
      | JBuf bs \<Rightarrow> Inl Unmodelled
      | _ \<Rightarrow> Inl TypeError)"

text \<open>\<open>for (const [name, v] of Object.entries(obj)) result[name] = f(v)\<close>.\<close>

definition entries_map :: "(jsval \<Rightarrow> exn + jsval) \<Rightarrow> jsval \<Rightarrow> exn + jsval" where
  "entries_map f obj =
     (case own_entries obj of
        Inl e \<Rightarrow> Inl e
      | Inr es \<Rightarrow>
         (case mapE (\<lambda>(name, v). case f v of Inl e \<Rightarrow> Inl e | Inr y \<Rightarrow> Inr (name, y)) es of
            Inl e \<Rightarrow> Inl e
          | Inr rs \<Rightarrow> (case assign_all [] rs of Inl e \<Rightarrow> Inl e | Inr res \<Rightarrow> Inr (JObj res))))"

text \<open>\<open>new Set(xs)\<close>: members are compared by SameValueZero.\<close>

definition set_add :: "jsval list \<Rightarrow> jsval \<Rightarrow> jsval list" where
  "set_add xs v = (if \<exists>x \<in> set xs. same_value_zero x v then xs else xs @ [v])"

definition new_Set :: "jsval list \<Rightarrow> jsval" where
  "new_Set xs = JSet (fold (\<lambda>v acc. set_add acc v) xs [])"

text \<open>\<open>v.toString()\<close>.\<close>

definition toString_method :: "host \<Rightarrow> jsval \<Rightarrow> exn + jsval" where
  "toString_method h v =
     (if v = JUndefined \<or> v = JNull then Inl TypeError else Inr (JStr (ToString h v)))"

text \<open>\<open>traverse(f)\<close> of the struct branch: a field whose value is \<open>undefined\<close> stays \<open>undefined\<close>.\<close>

definition traverse :: "(mapper \<Rightarrow> jsval \<Rightarrow> exn + jsval) \<Rightarrow> (string \<times> mapper) list \<Rightarrow> jsval \<Rightarrow> exn + jsval" where
  "traverse f mappers v =
     (case mapE (\<lambda>(name, mapper).
              case js_get v name of
                Inl e \<Rightarrow> Inl e
              | Inr x \<Rightarrow>
                 if x = JUndefined then Inr (name, JUndefined)
                 else (case f mapper x of Inl e \<Rightarrow> Inl e | Inr y \<Rightarrow> Inr (name, y))) mappers of
        Inl e \<Rightarrow> Inl e
      | Inr rs \<Rightarrow> (case assign_all [] rs of Inl e \<Rightarrow> Inl e | Inr res \<Rightarrow> Inr (JObj res)))"

text \<open>The wrapper of \<open>resolve\<close> for an optional shape.\<close>

definition optional_mapper :: "mapper \<Rightarrow> mapper" where
  "optional_mapper mapper =
     \<lparr> m_read = (\<lambda>v. if v = JUndefined \<or> v = JNull then Inr v else m_read mapper v),
       m_write = (\<lambda>v. if v = JUndefined \<or> v = JNull then Inr v else m_write mapper v) \<rparr>"

definition struct_mapper :: "host \<Rightarrow> shape \<Rightarrow> (string \<times> mapper) list \<Rightarrow> mapper" where
  "struct_mapper h shape mappers =
     \<lparr> m_read = (\<lambda>v.
         case assertHasKey ''M'' v of Inl e \<Rightarrow> Inl e | Inr _ \<Rightarrow>
         case js_get v ''M'' of Inl e \<Rightarrow> Inl e | Inr m \<Rightarrow>
         case traverse m_read mappers m of Inl e \<Rightarrow> Inl e | Inr r \<Rightarrow> construct h shape r),
       m_write = (\<lambda>v.
         case traverse m_write mappers v of Inl e \<Rightarrow> Inl e | Inr r \<Rightarrow> Inr (JObj [(''M'', r)])) \<rparr>"

definition array_mapper :: "mapper \<Rightarrow> mapper" where
  "array_mapper itemMapper =
     \<lparr> m_read = (\<lambda>v.
         case assertHasKey ''L'' v of Inl e \<Rightarrow> Inl e | Inr _ \<Rightarrow>
         case js_get v ''L'' of Inl e \<Rightarrow> Inl e | Inr l \<Rightarrow> array_map (m_read itemMapper) l),
       m_write = (\<lambda>v.
         case array_map (m_write itemMapper) v of Inl e \<Rightarrow> Inl e | Inr l \<Rightarrow> Inr (JObj [(''L'', l)])) \<rparr>"

text \<open>The set branch: \<open>key\<close>, \<open>read\<close> and \<open>write\<close> are chosen from the item shape.\<close>

definition set_mapper :: "host \<Rightarrow> shape \<Rightarrow> string \<Rightarrow> (jsval \<Rightarrow> exn + jsval) \<Rightarrow> (jsval \<Rightarrow> exn + jsval) \<Rightarrow> bool \<Rightarrow> mapper" where
  "set_mapper h Items key rd wr binary =
     \<lparr> m_read = (\<lambda>v.
         case assertHasKey key v of Inl e \<Rightarrow> Inl e | Inr _ \<Rightarrow>
         case js_get v key of Inl e \<Rightarrow> Inl e | Inr l \<Rightarrow>
           if binary then (case l of JArr xs \<Rightarrow> HashSet_of h Items xs
                          | JSet xs \<Rightarrow> HashSet_of h Items xs
                          | JBuf bs \<Rightarrow> Inl Unmodelled
                          | _ \<Rightarrow> Inl TypeError)
           else (case array_map rd l of Inl e \<Rightarrow> Inl e | Inr r \<Rightarrow> Inr (new_Set (elems r)))),
       m_write = (\<lambda>v.
         case Array_from v of Inl e \<Rightarrow> Inl e | Inr xs \<Rightarrow>
         case mapE wr xs of Inl e \<Rightarrow> Inl e | Inr ys \<Rightarrow> Inr (JObj [(key, JArr ys)])) \<rparr>"

definition map_mapper :: "mapper \<Rightarrow> mapper" where
  "map_mapper valueMapper =
     \<lparr> m_read = (\<lambda>v.
         case assertHasKey ''M'' v of Inl e \<Rightarrow> Inl e | Inr _ \<Rightarrow>
         case js_get v ''M'' of Inl e \<Rightarrow> Inl e | Inr m \<Rightarrow> entries_map (m_read valueMapper) m),
       m_write = (\<lambda>v.
         case entries_map (m_write valueMapper) v of Inl e \<Rightarrow> Inl e | Inr r \<Rightarrow> Inr (JObj [(''M'', r)])) \<rparr>"

definition string_mapper :: mapper where
  "string_mapper =
     \<lparr> m_read = (\<lambda>v.
         case assertHasKey ''S'' v of Inl e \<Rightarrow> Inl e | Inr _ \<Rightarrow>
         case js_get v ''S'' of Inl e \<Rightarrow> Inl e | Inr s \<Rightarrow>
         case assertIsType ''string'' s of Inl e \<Rightarrow> Inl e | Inr _ \<Rightarrow> Inr s),
       m_write = (\<lambda>v.
         case assertIsType ''string'' v of Inl e \<Rightarrow> Inl e | Inr _ \<Rightarrow> Inr (JObj [(''S'', v)])) \<rparr>"

text \<open>The integer and the number branch differ in the parser only.\<close>

definition number_mapper :: "host \<Rightarrow> (string \<Rightarrow> jsnum) \<Rightarrow> mapper" where
  "number_mapper h parse =
     \<lparr> m_read = (\<lambda>v.
         case assertHasKey ''N'' v of Inl e \<Rightarrow> Inl e | Inr _ \<Rightarrow>
         case js_get v ''N'' of Inl e \<Rightarrow> Inl e | Inr n \<Rightarrow>
         case assertIsType ''string'' n of Inl e \<Rightarrow> Inl e | Inr _ \<Rightarrow>
           Inr (JNum (parse (case n of JStr s \<Rightarrow> s | _ \<Rightarrow> [])))),
       m_write = (\<lambda>v.
         case assertIsType ''number'' v of Inl e \<Rightarrow> Inl e | Inr _ \<Rightarrow>
           Inr (JObj [(''N'', JStr (ToString h v))])) \<rparr>"

definition timestamp_mapper :: "host \<Rightarrow> mapper" where
  "timestamp_mapper h =
     \<lparr> m_read = (\<lambda>v.
         case assertHasKey ''S'' v of Inl e \<Rightarrow> Inl e | Inr _ \<Rightarrow>
         case js_get v ''S'' of Inl e \<Rightarrow> Inl e | Inr s \<Rightarrow>
         case assertIsType ''string'' s of Inl e \<Rightarrow> Inl e | Inr _ \<Rightarrow>
           Inr (JDate (Date_parse h (case s of JStr t \<Rightarrow> t | _ \<Rightarrow> [])))),
       m_write = (\<lambda>v.
         case v of
           JDate (Some t) \<Rightarrow> Inr (JObj [(''S'', JStr (toISOString h t))])
         | JDate None \<Rightarrow> Inl RangeError
         | _ \<Rightarrow> Inl TypeError) \<rparr>"

definition any_mapper :: "host \<Rightarrow> mapper" where
  "any_mapper h = \<lparr> m_read = Converter_output h, m_write = Converter_input h \<rparr>"

definition binary_mapper :: mapper where
  "binary_mapper =
     \<lparr> m_read = (\<lambda>v.
         case assertHasKey ''B'' v of Inl e \<Rightarrow> Inl e | Inr _ \<Rightarrow>
         case js_get v ''B'' of Inl e \<Rightarrow> Inl e | Inr b \<Rightarrow>
           (case b of
              JBuf _ \<Rightarrow> Inr b
            | _ \<Rightarrow> Inl (Thrown (MkError ''expected { B: Buffer }, but got { B: ${typeof value.B} }''
                                     [JStr (js_typeof b)])))),
       m_write = (\<lambda>B. Inr (JObj [(''B'', B)])) \<rparr>"

definition bool_mapper :: mapper where
  "bool_mapper =
     \<lparr> m_read = (\<lambda>v.
         case assertHasKey ''BOOL'' v of Inl e \<Rightarrow> Inl e | Inr _ \<Rightarrow> js_get v ''BOOL''),
       m_write = (\<lambda>b. Inr (JObj [(''BOOL'', b)])) \<rparr>"

text \<open>
  The union branch.  \<open>read\<close> returns what the first reader that does not throw
  returns; \<open>write\<close> writes with the first variant whose instance check accepts.
  The messages list the kinds of the variants (not rendered here) and the keys
  of the value, whose enumeration throws on \<open>null\<close> and \<open>undefined\<close>.
\<close>

fun union_read :: "mapper list \<Rightarrow> jsval \<Rightarrow> exn + jsval" where
  "union_read [] v =
     (case js_keys v of
        Inl e \<Rightarrow> Inl e
      | Inr ks \<Rightarrow> Inl (Thrown (MkError ''failed to read DDB union type: ${kinds}, but got ${keys}''
                                  [JStr (concat ks)])))"
| "union_read (mapper # rest) v =
     (case m_read mapper v of Inr r \<Rightarrow> Inr r | Inl _ \<Rightarrow> union_read rest v)"

fun union_write :: "(is_instance \<times> mapper) list \<Rightarrow> jsval \<Rightarrow> exn + jsval" where
  "union_write [] v =
     (case js_keys v of
        Inl e \<Rightarrow> Inl e
      | Inr ks \<Rightarrow> Inl (Thrown (MkError ''failed to write DDB union type: ${kinds}, but got ${keys}''
                                  [JStr (concat ks)])))"
| "union_write ((isType, mapper) # rest) v =
     (case isType v of
        Inl e \<Rightarrow> Inl e
      | Inr ok \<Rightarrow> if ok then m_write mapper v else union_write rest v)"

definition union_mapper :: "(is_instance \<times> mapper) list \<Rightarrow> mapper" where
  "union_mapper items = \<lparr> m_read = union_read (map snd items), m_write = union_write items \<rparr>"

definition nothing_mapper :: mapper where
  "nothing_mapper =
     \<lparr> m_read = (\<lambda>v. Inr JUndefined), m_write = (\<lambda>v. Inr (JObj [(''NULL'', JBool True)])) \<rparr>"

text \<open>
  The shape guards (not among the sources) test the kind of a shape, here its
  constructor under any decoration.
\<close>

definition isStringOrEnum :: "shape \<Rightarrow> bool" where
  "isStringOrEnum s = (case undecorated s of StringShape \<Rightarrow> True | EnumShape _ \<Rightarrow> True | _ \<Rightarrow> False)"

definition isBinaryShape :: "shape \<Rightarrow> bool" where
  "isBinaryShape s = (undecorated s = BinaryShape)"

definition isNumberShape :: "shape \<Rightarrow> bool" where
  "isNumberShape s = (undecorated s = NumberShape)"

text \<open>
  \<open>Mapper.of(shape, options)\<close> with \<open>options.validate\<close>; the cache only saves
  recompilation.  A variant of a union and the type of a literal are compiled
  by \<open>of(item)\<close>, that is with the default options, which validate.
\<close>

fun Mapper_of :: "host \<Rightarrow> bool \<Rightarrow> shape \<Rightarrow> exn + mapper"
  and resolveShape :: "host \<Rightarrow> bool \<Rightarrow> shape \<Rightarrow> exn + mapper"
where
  "Mapper_of h validate shape =
     (case resolveShape h validate shape of
        Inl e \<Rightarrow> Inl e
      | Inr mapper \<Rightarrow>
         (let m = (if isOptional shape then optional_mapper mapper else mapper)
          in if validate then ValidatingMapper_of h shape m else Inr m))"
| "resolveShape h validate (StructShape nm Members) =
     (case sequenceE (map (\<lambda>(name, m). case Mapper_of h validate m of Inl e \<Rightarrow> Inl e
                                         | Inr c \<Rightarrow> Inr (name, c)) Members) of
        Inl e \<Rightarrow> Inl e
      | Inr cs \<Rightarrow> Inr (struct_mapper h (StructShape nm Members) (reduce_spread cs)))"
| "resolveShape h validate (ArrayShape Items) =
     (case Mapper_of h validate Items of Inl e \<Rightarrow> Inl e | Inr itemMapper \<Rightarrow> Inr (array_mapper itemMapper))"
| "resolveShape h validate (SetShape Items) =
     (if isStringOrEnum Items \<or> isNumberShape Items \<or> isBinaryShape Items then
        Inr (set_mapper h Items
               (if isStringOrEnum Items then ''SS'' else if isBinaryShape Items then ''BS'' else ''NS'')
               (if isStringOrEnum Items then Inr else if isBinaryShape Items then Inr
                else (\<lambda>n. Inr (JNum (parseFloat h (ToString h n)))))
               (if isStringOrEnum Items then Inr else if isBinaryShape Items then Inr
                else toString_method h)
               (isBinaryShape Items))
      else Inl (Thrown (MkError ''invalid DynamoDB set type: ${shape.Items}'' [])))"
| "resolveShape h validate (MapShape Items) =
     (case Mapper_of h validate Items of Inl e \<Rightarrow> Inl e | Inr valueMapper \<Rightarrow> Inr (map_mapper valueMapper))"
| "resolveShape h validate StringShape = Inr string_mapper"
| "resolveShape h validate (EnumShape Values) = Inr string_mapper"
| "resolveShape h validate IntegerShape = Inr (number_mapper h (parseInt10 h))"
| "resolveShape h validate NumberShape = Inr (number_mapper h (parseFloat h))"
| "resolveShape h validate TimestampShape = Inr (timestamp_mapper h)"
| "resolveShape h validate AnyShape = Inr (any_mapper h)"
| "resolveShape h validate BinaryShape = Inr binary_mapper"
| "resolveShape h validate BoolShape = Inr bool_mapper"
| "resolveShape h validate (UnionShape Items) =
     (case sequenceE (map (\<lambda>item. case IsInstance_of item of Inl e \<Rightarrow> Inl e | Inr isType \<Rightarrow>
                                    case Mapper_of h True item of Inl e \<Rightarrow> Inl e | Inr mapper \<Rightarrow>
                                      Inr (isType, mapper)) Items) of
        Inl e \<Rightarrow> Inl e
      | Inr items \<Rightarrow> Inr (union_mapper items))"
| "resolveShape h validate (LiteralShape Type Value) = Mapper_of h True Type"
| "resolveShape h validate NothingShape = Inr nothing_mapper"
| "resolveShape h validate NeverShape =
     Inl (Thrown (MkError ''Shape ${shape.Kind} is not supported by DynamoDB'' []))"
| "resolveShape h validate (FunctionShape args returns) =
     Inl (Thrown (MkError ''Shape ${shape.Kind} is not supported by DynamoDB'' []))"
| "resolveShape h validate (Decorated vs s) = resolveShape h validate s"

declare Mapper_of.simps [simp del]


subsection \<open>Properties of the attribute codec\<close>

text \<open>Whatever the value and the key, \<open>assertHasKey\<close> throws no \<open>Error\<close> of its own.\<close>

lemma js_get_no_throw: "js_get v k \<noteq> Inl (Thrown err)"
  by (cases v)
     (simp_all add: js_get_def own_entries_def js_length_def js_size_def split: option.splits)

lemma assertHasKey_never_decode_error: "assertHasKey key v \<noteq> Inl (Thrown err)"
  using js_get_no_throw[of v key err] by (cases "js_get v key") (auto simp: assertHasKey_def)

text \<open>
  C2.  The reader of the Bool shape, whose wire form carries the key \<open>BOOL\<close>,
  applied to the wire value \<open>{S: 'x'}\<close>, which lacks that key: \<open>assertHasKey\<close>
  returns \<open>true\<close> and the read returns \<open>undefined\<close> instead of failing.
\<close>

theorem assertHasKey_failing_input:
  "assertHasKey ''BOOL'' (JObj [(''S'', JStr ''x'')]) = Inr True \<and>
   (\<forall>h. \<exists>m. Mapper_of h False BoolShape = Inr m \<and>
      m_read m (JObj [(''S'', JStr ''x'')]) = Inr JUndefined)"
  by (simp add: Mapper_of.simps[of _ False BoolShape] bool_mapper_def assertHasKey_def js_get_def
      own_entries_def inherited_def object_prototype_def)

lemma union_read_first:
  "i < length ms \<Longrightarrow> m_read (ms ! i) v = Inr r \<Longrightarrow> (\<forall>j<i. \<exists>e. m_read (ms ! j) v = Inl e) \<Longrightarrow>
   union_read ms v = Inr r"
proof (induction ms arbitrary: i)
  case Nil
  then show ?case by simp
next
  case (Cons m ms)
  show ?case
  proof (cases i)
    case 0
    then show ?thesis using Cons.prems by simp
  next
    case (Suc k)
    obtain e where e: "m_read m v = Inl e" using Cons.prems(3) Suc by auto
    have "\<forall>j<k. \<exists>e. m_read (ms ! j) v = Inl e" using Cons.prems(3) Suc by auto
    then have "union_read ms v = Inr r" using Cons.IH[of k] Cons.prems Suc by simp
    then show ?thesis using e by simp
  qed
qed

lemma union_read_exhausted:
  "(\<forall>i<length ms. \<exists>e. m_read (ms ! i) v = Inl e) \<Longrightarrow> union_read ms v = union_read [] v"
proof (induction ms)
  case Nil
  then show ?case by simp
next
  case (Cons m ms)
  obtain e where e: "m_read m v = Inl e" using Cons.prems by auto
  have "\<forall>i<length ms. \<exists>e. m_read (ms ! i) v = Inl e" using Cons.prems by auto
  then show ?case using Cons.IH e by simp
qed

text \<open>
  C5.  The reader that the union branch of the attribute codec compiles: it
  returns the result of the first variant reader, in declaration order, that
  does not fail; when every variant reader fails it fails with the error
  ``failed to read DDB union type'' (with a \<open>TypeError\<close> where the keys of the
  value cannot be listed for the message).
\<close>

theorem union_reader_first_success:
  "resolveShape h validate (UnionShape Items) = Inr m \<Longrightarrow>
   \<exists>mappers. length mappers = length Items \<and>
     (\<forall>i<length Items. Mapper_of h True (Items ! i) = Inr (mappers ! i)) \<and>
     (\<forall>v i r. i < length Items \<and> m_read (mappers ! i) v = Inr r \<and>
               (\<forall>j<i. \<exists>e. m_read (mappers ! j) v = Inl e) \<longrightarrow> m_read m v = Inr r) \<and>
     (\<forall>v. (\<forall>i<length Items. \<exists>e. m_read (mappers ! i) v = Inl e) \<longrightarrow>
          m_read m v =
            (case js_keys v of
               Inl e \<Rightarrow> Inl e
             | Inr ks \<Rightarrow> Inl (Thrown (MkError ''failed to read DDB union type: ${kinds}, but got ${keys}''
                                         [JStr (concat ks)]))))"
proof -
  assume a: "resolveShape h validate (UnionShape Items) = Inr m"
  let ?f = "\<lambda>item. case IsInstance_of item of Inl e \<Rightarrow> Inl e | Inr isType \<Rightarrow>
                     case Mapper_of h True item of Inl e \<Rightarrow> Inl e | Inr mapper \<Rightarrow> Inr (isType, mapper)"
  from a obtain ps where ps: "sequenceE (map ?f Items) = Inr ps" and m: "m = union_mapper ps"
    by (auto split: sum.splits)
  note sq = sequenceE_map_Inr[OF ps]
  let ?ms = "map snd ps"
  have len: "length ?ms = length Items" using sq by simp
  have comp: "Mapper_of h True (Items ! i) = Inr (?ms ! i)" if "i < length Items" for i
  proof -
    have "?f (Items ! i) = Inr (ps ! i)" using sq that by blast
    then have "Inr (ps ! i) = ?f (Items ! i)" by simp
    moreover have "i < length ps" using sq that by simp
    ultimately show ?thesis
      by (cases "IsInstance_of (Items ! i)"; cases "Mapper_of h True (Items ! i)") auto
  qed
  have rd: "m_read m = union_read ?ms" by (simp add: m union_mapper_def)
  have first: "m_read m v = Inr r"
    if "i < length Items \<and> m_read (?ms ! i) v = Inr r \<and> (\<forall>j<i. \<exists>e. m_read (?ms ! j) v = Inl e)" for v i r
  proof -
    from that len have i: "i < length ?ms" and r: "m_read (?ms ! i) v = Inr r"
      and f: "\<forall>j<i. \<exists>e. m_read (?ms ! j) v = Inl e" by auto
    show ?thesis unfolding rd by (rule union_read_first[OF i r f])
  qed
  have none: "m_read m v =
            (case js_keys v of
               Inl e \<Rightarrow> Inl e
             | Inr ks \<Rightarrow> Inl (Thrown (MkError ''failed to read DDB union type: ${kinds}, but got ${keys}''
                                         [JStr (concat ks)])))"
    if "\<forall>i<length Items. \<exists>e. m_read (?ms ! i) v = Inl e" for v
  proof -
    from that len have "\<forall>i<length ?ms. \<exists>e. m_read (?ms ! i) v = Inl e" by auto
    then have "union_read ?ms v = union_read [] v" by (rule union_read_exhausted)
    then show ?thesis unfolding rd by simp
  qed
  show ?thesis
    by (rule exI[of _ ?ms]) (use len comp first none in blast)
qed

theorem union_reader_first_success_witness:
  "\<exists>m. resolveShape example_host False (UnionShape [StringShape, BinaryShape]) = Inr m \<and>
       m_read m (JObj [(''S'', JStr ''x'')]) = Inr (JStr ''x'') \<and>
       m_read m (JObj [(''B'', JBuf [1, 2])]) = Inr (JBuf [1, 2]) \<and>
       m_read m (JObj [(''N'', JStr ''1'')]) =
         Inl (Thrown (MkError ''failed to read DDB union type: ${kinds}, but got ${keys}'' [JStr ''N'']))"
proof -
  let ?Items = "[StringShape, BinaryShape]"
  have c0: "Mapper_of example_host True StringShape = Inr string_mapper"
    by (simp add: Mapper_of.simps[of _ True StringShape] example_host_def)
  have c1: "Mapper_of example_host True BinaryShape = Inr binary_mapper"
    by (simp add: Mapper_of.simps[of _ True BinaryShape] example_host_def)
  obtain m where m: "resolveShape example_host False (UnionShape ?Items) = Inr m"
    by (simp add: c0 c1)
  from union_reader_first_success[OF m] obtain mappers where
    c: "\<forall>i<length ?Items. Mapper_of example_host True (?Items ! i) = Inr (mappers ! i)"
    and f: "\<forall>v i r. i < length ?Items \<and> m_read (mappers ! i) v = Inr r \<and>
               (\<forall>j<i. \<exists>e. m_read (mappers ! j) v = Inl e) \<longrightarrow> m_read m v = Inr r"
    and n: "\<forall>v. (\<forall>i<length ?Items. \<exists>e. m_read (mappers ! i) v = Inl e) \<longrightarrow>
          m_read m v =
            (case js_keys v of
               Inl e \<Rightarrow> Inl e
             | Inr ks \<Rightarrow> Inl (Thrown (MkError ''failed to read DDB union type: ${kinds}, but got ${keys}''
                                         [JStr (concat ks)])))"
    by blast
  have m0: "mappers ! 0 = string_mapper" using c[rule_format, of 0] c0 by simp
  have m1: "mappers ! Suc 0 = binary_mapper" using c[rule_format, of 1] c1 by simp
  note ev = string_mapper_def binary_mapper_def assertHasKey_def assertIsType_def js_get_def
    own_entries_def inherited_def object_prototype_def js_typeof_def js_keys_def
  have "0 < length ?Items \<and> m_read (mappers ! 0) (JObj [(''S'', JStr ''x'')]) = Inr (JStr ''x'') \<and>
        (\<forall>j<0. \<exists>e. m_read (mappers ! j) (JObj [(''S'', JStr ''x'')]) = Inl e)"
    by (simp add: m0 ev)
  then have r1: "m_read m (JObj [(''S'', JStr ''x'')]) = Inr (JStr ''x'')" using f by blast
  have "1 < length ?Items \<and> m_read (mappers ! 1) (JObj [(''B'', JBuf [1, 2])]) = Inr (JBuf [1, 2]) \<and>
        (\<forall>j<1. \<exists>e. m_read (mappers ! j) (JObj [(''B'', JBuf [1, 2])]) = Inl e)"
    by (simp add: m0 m1 ev)
  then have r2: "m_read m (JObj [(''B'', JBuf [1, 2])]) = Inr (JBuf [1, 2])" using f by blast
  have "\<forall>i<length ?Items. \<exists>e. m_read (mappers ! i) (JObj [(''N'', JStr ''1'')]) = Inl e"
    by (simp add: less_Suc_eq m0 m1 ev)
  then have "m_read m (JObj [(''N'', JStr ''1'')]) =
            (case js_keys (JObj [(''N'', JStr ''1'')]) of
               Inl e \<Rightarrow> Inl e
             | Inr ks \<Rightarrow> Inl (Thrown (MkError ''failed to read DDB union type: ${kinds}, but got ${keys}''
                                         [JStr (concat ks)])))" using n by blast
  then have r3: "m_read m (JObj [(''N'', JStr ''1'')]) =
         Inl (Thrown (MkError ''failed to read DDB union type: ${kinds}, but got ${keys}'' [JStr ''N'']))"
    by (simp add: ev)
  from m r1 r2 r3 show ?thesis by blast
qed

section \<open>The JSON codec (\<open>Json.mapper\<close> and its \<open>MapperVisitor\<close>)\<close>

definition json_enum_mapper :: "string list \<Rightarrow> is_instance \<Rightarrow> mapper" where
  "json_enum_mapper vals isInstance =
     \<lparr> m_read = (\<lambda>s.
         case isInstance s of
           Inl e \<Rightarrow> Inl e
         | Inr ok \<Rightarrow>
            if ok then Inr s
            else Inl (Thrown (MkError ''expected a value of the enum, ${values.join(,)}'' [JStr (join '','' vals)]))),
       m_write = (\<lambda>s. Inr s) \<rparr>"

text \<open>\<open>literalShape\<close>: the read compares the raw input with the literal value.\<close>

definition json_literal_mapper :: "mapper \<Rightarrow> equals \<Rightarrow> jsval \<Rightarrow> jsval \<Rightarrow> mapper" where
  "json_literal_mapper valueMapper isEqual Value literalValue =
     \<lparr> m_read = (\<lambda>a.
         case m_read valueMapper a of Inl e \<Rightarrow> Inl e | Inr v \<Rightarrow>
         case isEqual a Value of Inl e \<Rightarrow> Inl e | Inr ok \<Rightarrow>
           if \<not> ok then Inl (Thrown (MkError ''expected literal value: ${shape.Value}'' [Value]))
           else Inr Value),
       m_write = (\<lambda>v. Inr literalValue) \<rparr>"

fun json_union_read :: "mapper list \<Rightarrow> jsval \<Rightarrow> exn + jsval" where
  "json_union_read [] a = Inl (Thrown (MkError ''expected a value of ${shape}, but got: ${a}'' [a]))"
| "json_union_read (mapper # rest) a =
     (case m_read mapper a of Inr r \<Rightarrow> Inr r | Inl _ \<Rightarrow> json_union_read rest a)"

fun json_union_write :: "(is_instance \<times> mapper) list \<Rightarrow> jsval \<Rightarrow> exn + jsval" where
  "json_union_write [] v = Inl (Thrown (MkError ''expected one of union type: ${shape}, but got: ${value}'' [v]))"
| "json_union_write ((isType, mapper) # rest) v =
     (case isType v of
        Inl e \<Rightarrow> Inl e
      | Inr ok \<Rightarrow> if ok then m_write mapper v else json_union_write rest v)"

definition json_union_mapper :: "(is_instance \<times> mapper) list \<Rightarrow> mapper" where
  "json_union_mapper items =
     \<lparr> m_read = json_union_read (map snd items), m_write = json_union_write items \<rparr>"

definition json_nothing_mapper :: mapper where
  "json_nothing_mapper =
     \<lparr> m_read = (\<lambda>a.
         if js_typeof a = ''undefined'' \<or> a = JNull then Inr JNull
         else Inl (Thrown (MkError ''expected null or undefined, got ${typeof a}, ${a}'' [JStr (js_typeof a), a]))),
       m_write = (\<lambda>v. Inr JNull) \<rparr>"

definition json_any_mapper :: mapper where
  "json_any_mapper = \<lparr> m_read = Inr, m_write = Inr \<rparr>"

text \<open>
  \<open>binaryShape\<close>: \<open>b.toString('base64')\<close> encodes a buffer; on a string it is
  \<open>String.prototype.toString\<close>, which returns the string, and on a number the
  radix is not valid.
\<close>

definition json_binary_mapper :: "host \<Rightarrow> mapper" where
  "json_binary_mapper h =
     \<lparr> m_read = (\<lambda>b.
         case b of
           JStr s \<Rightarrow> Inr (JBuf (base64_decode h s))
         | _ \<Rightarrow> Inl (Thrown (MkError ''expected base64 encoded string for Binary Payload'' []))),
       m_write = (\<lambda>b.
         case b of
           JBuf bs \<Rightarrow> Inr (JStr (base64_encode h bs))
         | JUndefined \<Rightarrow> Inl TypeError
         | JNull \<Rightarrow> Inl TypeError
         | JNum _ \<Rightarrow> Inl RangeError
         | _ \<Rightarrow> Inr (JStr (ToString h b))) \<rparr>"

definition json_array_mapper :: "mapper \<Rightarrow> mapper" where
  "json_array_mapper item =
     \<lparr> m_read = array_map (m_read item), m_write = array_map (m_write item) \<rparr>"

text \<open>The readers of the scalars check \<open>typeof\<close>.\<close>

definition json_typed_mapper :: "string \<Rightarrow> string \<Rightarrow> mapper" where
  "json_typed_mapper type msg =
     \<lparr> m_read = (\<lambda>v.
         if js_typeof v \<noteq> type then Inl (Thrown (MkError msg [JStr (js_typeof v)])) else Inr v),
       m_write = (\<lambda>v. Inr v) \<rparr>"

definition json_integer_mapper :: mapper where
  "json_integer_mapper =
     \<lparr> m_read = (\<lambda>n.
         case n of
           JNum x \<Rightarrow> if \<not> whole x then Inl (Thrown (MkError ''expected integer, got: ${n}'' [n])) else Inr n
         | _ \<Rightarrow> Inl (Thrown (MkError ''expected number but got ${typeof n}'' [JStr (js_typeof n)]))),
       m_write = (\<lambda>n. Inr n) \<rparr>"

definition json_struct_mapper :: "host \<Rightarrow> shape \<Rightarrow> (string \<times> mapper) list \<Rightarrow> mapper" where
  "json_struct_mapper h shape flds =
     \<lparr> m_read = (\<lambda>v.
         if js_typeof v \<noteq> ''object'' then
           Inl (Thrown (MkError ''expected object but got ${typeof value}'' [JStr (js_typeof v)]))
         else
           (case mapE (\<lambda>(name, codec). case js_get v name of Inl e \<Rightarrow> Inl e | Inr x \<Rightarrow>
                          case m_read codec x of Inl e \<Rightarrow> Inl e | Inr y \<Rightarrow> Inr (name, y)) flds of
              Inl e \<Rightarrow> Inl e
            | Inr rs \<Rightarrow> (case assign_all [] rs of Inl e \<Rightarrow> Inl e
                         | Inr res \<Rightarrow> construct h shape (JObj res)))),
       m_write = (\<lambda>v.
         case mapE (\<lambda>(name, codec). case js_get v name of Inl e \<Rightarrow> Inl e | Inr x \<Rightarrow>
                        case m_write codec x of Inl e \<Rightarrow> Inl e | Inr y \<Rightarrow> Inr (name, y)) flds of
           Inl e \<Rightarrow> Inl e
         | Inr rs \<Rightarrow> (case assign_all [] rs of Inl e \<Rightarrow> Inl e | Inr res \<Rightarrow> Inr (JObj res))) \<rparr>"

text \<open>\<open>mapShape\<close>: the guard \<open>typeof valueMapper !== 'object'\<close> tests the mapper, which is an object.\<close>

definition json_map_mapper :: "mapper \<Rightarrow> mapper" where
  "json_map_mapper valueMapper =
     \<lparr> m_read = entries_map (m_read valueMapper), m_write = entries_map (m_write valueMapper) \<rparr>"

definition json_set_mapper :: "host \<Rightarrow> shape \<Rightarrow> mapper \<Rightarrow> mapper" where
  "json_set_mapper h Items item =
     \<lparr> m_read = (\<lambda>arr.
         case array_map (m_read item) arr of
           Inl e \<Rightarrow> Inl e
         | Inr r \<Rightarrow>
            if undecorated Items = StringShape \<or> undecorated Items = NumberShape \<or>
               undecorated Items = IntegerShape \<or> undecorated Items = BoolShape
            then Inr (new_Set (elems r)) else HashSet_of h Items (elems r)),
       m_write = (\<lambda>s.
         case Array_from s of Inl e \<Rightarrow> Inl e | Inr xs \<Rightarrow>
         case mapE (m_write item) xs of Inl e \<Rightarrow> Inl e | Inr ys \<Rightarrow> Inr (JArr ys)) \<rparr>"

definition json_timestamp_mapper :: "host \<Rightarrow> mapper" where
  "json_timestamp_mapper h =
     \<lparr> m_read = (\<lambda>d.
         case d of
           JStr s \<Rightarrow> Inr (JDate (Date_parse h s))
         | _ \<Rightarrow> Inl (Thrown (MkError ''expected string for timestamp, but got ${typeof d}'' [JStr (js_typeof d)]))),
       m_write = (\<lambda>d.
         case d of
           JDate (Some t) \<Rightarrow> Inr (JStr (toISOString h t))
         | JDate None \<Rightarrow> Inl RangeError
         | _ \<Rightarrow> Inl TypeError) \<rparr>"

text \<open>
  \<open>Json.mapper(shape, options)\<close> with \<open>options.validate\<close> and the visitor
  \<open>MapperVisitor\<close>.  Children are compiled by \<open>mapper(child, {visitor: this})\<close>
  and union variants by \<open>Json.mapper(item)\<close>: neither validates.
\<close>

fun Json_mapper :: "host \<Rightarrow> bool \<Rightarrow> shape \<Rightarrow> exn + mapper"
  and Json_visit :: "host \<Rightarrow> shape \<Rightarrow> exn + mapper"
where
  "Json_mapper h validate shape =
     (case Json_visit h shape of
        Inl e \<Rightarrow> Inl e
      | Inr mapper \<Rightarrow>
         (case (if validate then ValidatingMapper_of h shape mapper else Inr mapper) of
            Inl e \<Rightarrow> Inl e
          | Inr m \<Rightarrow> Inr (if isOptional shape then optional_mapper m else m)))"
| "Json_visit h (EnumShape Values) =
     (case IsInstance_of (EnumShape Values) of
        Inl e \<Rightarrow> Inl e
      | Inr isInstance \<Rightarrow> Inr (json_enum_mapper (map snd Values) isInstance))"
| "Json_visit h (LiteralShape Type Value) =
     (case Json_visit h Type of Inl e \<Rightarrow> Inl e | Inr valueMapper \<Rightarrow>
      case Equals_of Type of Inl e \<Rightarrow> Inl e | Inr isEqual \<Rightarrow>
      case m_write valueMapper Value of Inl e \<Rightarrow> Inl e | Inr literalValue \<Rightarrow>
        Inr (json_literal_mapper valueMapper isEqual Value literalValue))"
| "Json_visit h (UnionShape Items) =
     (case sequenceE (map (\<lambda>item. case IsInstance_of item of Inl e \<Rightarrow> Inl e | Inr isType \<Rightarrow>
                                    case Json_mapper h False item of Inl e \<Rightarrow> Inl e | Inr mapper \<Rightarrow>
                                      Inr (isType, mapper)) Items) of
        Inl e \<Rightarrow> Inl e
      | Inr items \<Rightarrow> Inr (json_union_mapper items))"
| "Json_visit h NeverShape = Inl (Thrown (MkError ''NeverShape is not supported by JSON'' []))"
| "Json_visit h (FunctionShape args returns) = Inl (Thrown (MkError ''FunctionShape is not supported by JSON'' []))"
| "Json_visit h NothingShape = Inr json_nothing_mapper"
| "Json_visit h AnyShape = Inr json_any_mapper"
| "Json_visit h BinaryShape = Inr (json_binary_mapper h)"
| "Json_visit h (ArrayShape Items) =
     (case Json_mapper h False Items of Inl e \<Rightarrow> Inl e | Inr item \<Rightarrow> Inr (json_array_mapper item))"
| "Json_visit h BoolShape = Inr (json_typed_mapper ''boolean'' ''expected boolean but got ${typeof b}'')"
| "Json_visit h (StructShape nm Fields) =
     (case sequenceE (map (\<lambda>(name, member). case Json_mapper h False member of Inl e \<Rightarrow> Inl e
                                              | Inr c \<Rightarrow> Inr (name, c)) Fields) of
        Inl e \<Rightarrow> Inl e
      | Inr cs \<Rightarrow> Inr (json_struct_mapper h (StructShape nm Fields) (reduce_spread cs)))"
| "Json_visit h (MapShape Items) =
     (case Json_mapper h False Items of Inl e \<Rightarrow> Inl e | Inr valueMapper \<Rightarrow> Inr (json_map_mapper valueMapper))"
| "Json_visit h NumberShape = Inr (json_typed_mapper ''number'' ''expected number but got ${typeof n}'')"
| "Json_visit h IntegerShape = Inr json_integer_mapper"
| "Json_visit h (SetShape Items) =
     (case Json_mapper h False Items of Inl e \<Rightarrow> Inl e | Inr item \<Rightarrow> Inr (json_set_mapper h Items item))"
| "Json_visit h StringShape = Inr (json_typed_mapper ''string'' ''expected string but got ${typeof s}'')"
| "Json_visit h TimestampShape = Inr (json_timestamp_mapper h)"
| "Json_visit h (Decorated vs s) = Json_visit h s"

declare Json_mapper.simps [simp del]

section \<open>Round trips\<close>

text \<open>
  Writing \<open>V\<close> with a compiled codec, reading the result back and comparing
  what was read with \<open>V\<close> by the equality of \<open>S\<close>; the round trip holds when all
  of this succeeds and the equality answers \<open>true\<close>.
\<close>

definition round_trip :: "exn + mapper \<Rightarrow> shape \<Rightarrow> jsval \<Rightarrow> exn + bool" where
  "round_trip codec S V =
     (case codec of Inl e \<Rightarrow> Inl e | Inr m \<Rightarrow>
      case m_write m V of Inl e \<Rightarrow> Inl e | Inr w \<Rightarrow>
      case m_read m w of Inl e \<Rightarrow> Inl e | Inr r \<Rightarrow>
      case Equals_of S of Inl e \<Rightarrow> Inl e | Inr isEqual \<Rightarrow> isEqual r V)"

definition round_trips :: "exn + mapper \<Rightarrow> shape \<Rightarrow> jsval \<Rightarrow> bool" where
  "round_trips codec S V \<longleftrightarrow> round_trip codec S V = Inr True"

text \<open>
  C1, as stated, fails at values that the instance check accepts:
  \<^item> Nothing: of \<open>null\<close> the attribute codec reads back \<open>undefined\<close>, and the JSON
    codec reads back \<open>null\<close> of both \<open>null\<close> and \<open>undefined\<close>, while the equality of
    Nothing holds of \<open>undefined\<close> and \<open>undefined\<close> only;
  \<^item> Number at NaN, which \<open>===\<close> does not relate to itself;
  \<^item> Timestamp at an invalid date, which \<open>toISOString\<close> refuses;
  \<^item> Binary at a string, which the instance check accepts and the attribute
    reader refuses;
  \<^item> Any at \<open>null\<close>, whose keys the equality of Any tries to list;
  \<^item> Integer, for which no equality is compiled;
  \<^item> a union of Timestamp and String at the string \<open>hello\<close>, which the reader
    of the first variant reads as a date;
  \<^item> a map with the key \<open>__proto__\<close>, which the assignment \<open>res[name] = ...\<close>
    of the JSON writer drops;
  \<^item> a struct with an optional field that is \<open>undefined\<close>, which the equality of
    the struct answers \<open>false\<close> to;
  \<^item> a map of optional strings with a value that is \<open>undefined\<close>, which the
    equality of the map answers \<open>false\<close> to;
  \<^item> a struct with a property that is no field, which is not written;
  \<^item> a literal of a timestamp, where the JSON reader compares the text that
    was written with the date.
\<close>

theorem round_trip_counterexample:
  "accepts NothingShape JNull \<and>
   \<not> round_trips (Mapper_of example_host False NothingShape) NothingShape JNull \<and>
   \<not> round_trips (Json_mapper example_host False NothingShape) NothingShape JNull \<and>
   accepts NothingShape JUndefined \<and>
   \<not> round_trips (Json_mapper example_host False NothingShape) NothingShape JUndefined \<and>
   accepts NumberShape (JNum NaN) \<and>
   \<not> round_trips (Json_mapper example_host False NumberShape) NumberShape (JNum NaN) \<and>
   accepts TimestampShape (JDate None) \<and>
   \<not> round_trips (Mapper_of example_host False TimestampShape) TimestampShape (JDate None) \<and>
   \<not> round_trips (Json_mapper example_host False TimestampShape) TimestampShape (JDate None) \<and>
   accepts BinaryShape (JStr ''a'') \<and>
   \<not> round_trips (Mapper_of example_host False BinaryShape) BinaryShape (JStr ''a'') \<and>
   accepts AnyShape JNull \<and>
   \<not> round_trips (Json_mapper example_host False AnyShape) AnyShape JNull \<and>
   accepts IntegerShape (JNum (Fin 1)) \<and>
   \<not> round_trips (Json_mapper example_host False IntegerShape) IntegerShape (JNum (Fin 1)) \<and>
   accepts (UnionShape [TimestampShape, StringShape]) (JStr ''hello'') \<and>
   \<not> round_trips (Json_mapper example_host False (UnionShape [TimestampShape, StringShape]))
         (UnionShape [TimestampShape, StringShape]) (JStr ''hello'') \<and>
   accepts (MapShape StringShape) (JObj [(''__proto__'', JStr ''x'')]) \<and>
   \<not> round_trips (Json_mapper example_host False (MapShape StringShape))
         (MapShape StringShape) (JObj [(''__proto__'', JStr ''x'')]) \<and>
   accepts (StructShape ''T'' [(''id'', StringShape), (''count'', UnionShape [NumberShape, NothingShape])])
           (JObj [(''id'', JStr ''a''), (''count'', JUndefined)]) \<and>
   \<not> round_trips (Json_mapper example_host False
           (StructShape ''T'' [(''id'', StringShape), (''count'', UnionShape [NumberShape, NothingShape])]))
         (StructShape ''T'' [(''id'', StringShape), (''count'', UnionShape [NumberShape, NothingShape])])
         (JObj [(''id'', JStr ''a''), (''count'', JUndefined)]) \<and>
   accepts (MapShape (UnionShape [StringShape, NothingShape])) (JObj [(''a'', JUndefined)]) \<and>
   \<not> round_trips (Json_mapper example_host False (MapShape (UnionShape [StringShape, NothingShape])))
         (MapShape (UnionShape [StringShape, NothingShape])) (JObj [(''a'', JUndefined)]) \<and>
   accepts (StructShape ''T'' [(''id'', StringShape)]) (JObj [(''id'', JStr ''a''), (''extra'', JStr ''b'')]) \<and>
   \<not> round_trips (Json_mapper example_host False (StructShape ''T'' [(''id'', StringShape)]))
         (StructShape ''T'' [(''id'', StringShape)]) (JObj [(''id'', JStr ''a''), (''extra'', JStr ''b'')]) \<and>
   accepts (LiteralShape TimestampShape (JDate (Some 0))) (JDate (Some 0)) \<and>
   \<not> round_trips (Json_mapper example_host False (LiteralShape TimestampShape (JDate (Some 0))))
         (LiteralShape TimestampShape (JDate (Some 0))) (JDate (Some 0))"
proof -
  note ev = accepts_def instance_check_def round_trips_def round_trip_def js_typeof_def js_strict_eq_def
  have 1: "accepts NothingShape JNull \<and>
     \<not> round_trips (Mapper_of example_host False NothingShape) NothingShape JNull \<and>
     \<not> round_trips (Json_mapper example_host False NothingShape) NothingShape JNull \<and>
     accepts NothingShape JUndefined \<and>
     \<not> round_trips (Json_mapper example_host False NothingShape) NothingShape JUndefined"
    by (simp add: ev Mapper_of.simps[of _ False NothingShape]
        Json_mapper.simps[of _ False NothingShape] nothing_mapper_def json_nothing_mapper_def)
  have 2: "accepts NumberShape (JNum NaN) \<and>
     \<not> round_trips (Json_mapper example_host False NumberShape) NumberShape (JNum NaN)"
    by (simp add: ev Json_mapper.simps[of _ False NumberShape] json_typed_mapper_def)
  have 3: "accepts TimestampShape (JDate None) \<and>
     \<not> round_trips (Mapper_of example_host False TimestampShape) TimestampShape (JDate None) \<and>
     \<not> round_trips (Json_mapper example_host False TimestampShape) TimestampShape (JDate None)"
    by (simp add: ev Mapper_of.simps[of _ False TimestampShape] Json_mapper.simps[of _ False TimestampShape]
        timestamp_mapper_def json_timestamp_mapper_def)
  have 4: "accepts BinaryShape (JStr ''a'') \<and>
     \<not> round_trips (Mapper_of example_host False BinaryShape) BinaryShape (JStr ''a'')"
    by (simp add: ev Mapper_of.simps[of _ False BinaryShape] binary_mapper_def assertHasKey_def
        js_get_def own_entries_def)
  have 5: "accepts AnyShape JNull \<and>
     \<not> round_trips (Json_mapper example_host False AnyShape) AnyShape JNull"
    by (simp add: ev Json_mapper.simps[of _ False AnyShape] json_any_mapper_def any_equals.simps
        isArray_def own_entries_def)
  have 6: "accepts IntegerShape (JNum (Fin 1)) \<and>
     \<not> round_trips (Json_mapper example_host False IntegerShape) IntegerShape (JNum (Fin 1))"
    by (simp add: ev Json_mapper.simps[of _ False IntegerShape] json_integer_mapper_def whole_def)
  let ?U = "UnionShape [TimestampShape, StringShape]"
  have 7: "accepts ?U (JStr ''hello'') \<and>
     \<not> round_trips (Json_mapper example_host False ?U) ?U (JStr ''hello'')"
    by (simp add: ev Json_mapper.simps[of _ False ?U] Json_mapper.simps[of _ False TimestampShape]
        Json_mapper.simps[of _ False StringShape] union_is_instance_def json_union_mapper_def
        json_timestamp_mapper_def json_typed_mapper_def union_equals_def example_host_def)
  let ?M = "MapShape StringShape"
  have 8: "accepts ?M (JObj [(''__proto__'', JStr ''x'')]) \<and>
     \<not> round_trips (Json_mapper example_host False ?M) ?M (JObj [(''__proto__'', JStr ''x'')])"
    by (simp add: ev Json_mapper.simps[of _ False ?M] Json_mapper.simps[of _ False StringShape]
        map_is_instance_def own_entries_def json_map_mapper_def entries_map_def json_typed_mapper_def
        assign_prop_def is_primitive_def map_equals_def js_keys_def)
  let ?T = "StructShape ''T'' [(''id'', StringShape), (''count'', UnionShape [NumberShape, NothingShape])]"
  let ?O = "UnionShape [NumberShape, NothingShape]"
  have 9: "accepts ?T (JObj [(''id'', JStr ''a''), (''count'', JUndefined)]) \<and>
     \<not> round_trips (Json_mapper example_host False ?T) ?T (JObj [(''id'', JStr ''a''), (''count'', JUndefined)])"
    by (simp add: ev Json_mapper.simps[of _ False ?T] Json_mapper.simps[of _ False ?O]
        Json_mapper.simps[of _ False StringShape] Json_mapper.simps[of _ False NumberShape]
        Json_mapper.simps[of _ False NothingShape]
        reduce_spread1_def reduce_spread_def obj_assign_def struct_is_instance_def union_is_instance_def
        js_get_def own_entries_def json_struct_mapper_def json_typed_mapper_def json_union_mapper_def
        json_nothing_mapper_def optional_mapper_def assign_prop_def example_host_def
        struct_equals_def js_keys_def union_equals_def)
  let ?P = "UnionShape [StringShape, NothingShape]"
  have 10: "accepts (MapShape ?P) (JObj [(''a'', JUndefined)]) \<and>
     \<not> round_trips (Json_mapper example_host False (MapShape ?P)) (MapShape ?P) (JObj [(''a'', JUndefined)])"
    by (simp add: ev Json_mapper.simps[of _ False "MapShape ?P"] Json_mapper.simps[of _ False ?P]
        Json_mapper.simps[of _ False StringShape] Json_mapper.simps[of _ False NothingShape]
        map_is_instance_def union_is_instance_def own_entries_def json_map_mapper_def entries_map_def
        json_typed_mapper_def json_union_mapper_def json_nothing_mapper_def optional_mapper_def
        assign_prop_def map_equals_def js_keys_def js_get_def)
  let ?I = "StructShape ''T'' [(''id'', StringShape)]"
  have 11: "accepts ?I (JObj [(''id'', JStr ''a''), (''extra'', JStr ''b'')]) \<and>
     \<not> round_trips (Json_mapper example_host False ?I) ?I (JObj [(''id'', JStr ''a''), (''extra'', JStr ''b'')])"
    by (simp add: ev Json_mapper.simps[of _ False ?I] Json_mapper.simps[of _ False StringShape]
        reduce_spread1_def reduce_spread_def obj_assign_def struct_is_instance_def
        js_get_def own_entries_def json_struct_mapper_def json_typed_mapper_def
        assign_prop_def example_host_def struct_equals_def js_keys_def)
  let ?L = "LiteralShape TimestampShape (JDate (Some 0))"
  have 12: "accepts ?L (JDate (Some 0)) \<and>
     \<not> round_trips (Json_mapper example_host False ?L) ?L (JDate (Some 0))"
    by (simp add: ev Json_mapper.simps[of _ False ?L] literal_is_instance_def timestamp_equals_def
        getTime_def json_literal_mapper_def json_timestamp_mapper_def example_host_def)
  from 1 2 3 4 5 6 7 8 9 10 11 12 show ?thesis by (elim conjE) (intro conjI)
qed

subsection \<open>The values for which the round trip is proved\<close>

text \<open>
  \<open>Mapper.of\<close> before the validating wrapper: the mapper of \<open>resolve()\<close>.
\<close>

definition attr_plain :: "host \<Rightarrow> bool \<Rightarrow> shape \<Rightarrow> exn + mapper" where
  "attr_plain h validate S =
     (case resolveShape h validate S of
        Inl e \<Rightarrow> Inl e
      | Inr mapper \<Rightarrow> Inr (if isOptional S then optional_mapper mapper else mapper))"

text \<open>
  The validating wrapper is not part of the files modelled.  It lets a value
  through when the wrapped codec writes the value, and reads what was written,
  exactly as the codec it wraps.
\<close>

definition lets_through :: "host \<Rightarrow> shape \<Rightarrow> mapper \<Rightarrow> jsval \<Rightarrow> bool" where
  "lets_through h S m V =
     (case ValidatingMapper_of h S m of
        Inl e \<Rightarrow> False
      | Inr m' \<Rightarrow> m_write m' V = m_write m V \<and>
                 (case m_write m V of Inl e \<Rightarrow> True | Inr w \<Rightarrow> m_read m' w = m_read m w))"

definition attr_transparent :: "host \<Rightarrow> bool \<Rightarrow> shape \<Rightarrow> jsval \<Rightarrow> bool" where
  "attr_transparent h validate S V =
     (\<not> validate \<or> (case attr_plain h validate S of Inl e \<Rightarrow> False | Inr m \<Rightarrow> lets_through h S m V))"

definition json_transparent :: "host \<Rightarrow> bool \<Rightarrow> shape \<Rightarrow> jsval \<Rightarrow> bool" where
  "json_transparent h validate S V =
     (\<not> validate \<or> (case Json_visit h S of Inl e \<Rightarrow> False | Inr m \<Rightarrow> lets_through h S m V))"

text \<open>
  A union writes \<open>V\<close> with the first variant \<open>i\<close> that accepts it.  The value \<open>r\<close>
  read back is compared by the equality of variant \<open>i\<close> when it is identical
  to \<open>V\<close>, or when variant \<open>i\<close> accepts it too and the instance checks of the
  earlier variants do not throw on it.
\<close>

definition same_variant :: "shape list \<Rightarrow> nat \<Rightarrow> jsval \<Rightarrow> jsval \<Rightarrow> bool" where
  "same_variant Items i V r =
     (js_strict_eq r V \<or>
      (instance_check (Items ! i) r = Inr True \<and>
       (\<forall>j<i. case instance_check (Items ! j) r of Inl e \<Rightarrow> False | Inr ok \<Rightarrow> True)))"

text \<open>
  With the codecs \<open>c\<close> of the variants: what variant \<open>i\<close> writes is not
  \<open>undefined\<close> or \<open>null\<close> where the union is optional (the wrapper would hand
  it back unread), the readers of the earlier variants throw on it, and what
  variant \<open>i\<close> reads back is compared as a value of variant \<open>i\<close>.
\<close>

definition variant_reread :: "bool \<Rightarrow> (shape \<Rightarrow> exn + mapper) \<Rightarrow> shape list \<Rightarrow> nat \<Rightarrow> jsval \<Rightarrow> bool" where
  "variant_reread optional c Items i V =
     (case c (Items ! i) of
        Inl e \<Rightarrow> True
      | Inr m \<Rightarrow>
         (case m_write m V of
            Inl e \<Rightarrow> True
          | Inr w \<Rightarrow>
             (optional \<longrightarrow> w \<noteq> JUndefined \<and> w \<noteq> JNull) \<and>
             (\<forall>j<i. case c (Items ! j) of Inl e \<Rightarrow> True
                     | Inr mj \<Rightarrow> (case m_read mj w of Inl e \<Rightarrow> e \<noteq> Unmodelled | Inr r \<Rightarrow> False)) \<and>
             (case m_read m w of Inl e \<Rightarrow> True | Inr r \<Rightarrow> same_variant Items i V r)))"

text \<open>
  The JSON codec of a literal writes the literal value \<open>Val\<close>, once, when it is
  compiled; its reader reads what is written with the codec of the type,
  compares what is written (not what it read) with \<open>Val\<close> by the equality of
  the type, and returns \<open>Val\<close>.
\<close>

definition literal_reread :: "host \<Rightarrow> shape \<Rightarrow> jsval \<Rightarrow> jsval \<Rightarrow> bool" where
  "literal_reread h T Val V =
     (case Json_visit h T of Inl e \<Rightarrow> True | Inr valueMapper \<Rightarrow>
      case Equals_of T of Inl e \<Rightarrow> True | Inr isEqual \<Rightarrow>
      case m_write valueMapper Val of Inl e \<Rightarrow> True | Inr literalValue \<Rightarrow>
        (case m_read valueMapper literalValue of Inl e \<Rightarrow> False | Inr v \<Rightarrow> True) \<and>
        isEqual literalValue Val = Inr True \<and> isEqual Val V = Inr True)"

text \<open>
  \<open>stable h va vj S V\<close>: the conditions on a value \<open>V\<close> of the shape \<open>S\<close>, for the
  attribute codec compiled with \<open>validate: va\<close> and the JSON codec compiled with
  \<open>validate: vj\<close>, under which the round trip is proved.  The attribute codec
  hands its options to the codecs of items and fields and compiles the
  variants of a union and the type of a literal with validation; the JSON
  codec validates at the top only.
  \<^item> String, Enum, Bool: every value.
  \<^item> Number: not NaN, and a number that the run time parses back from its
    decimal text.
  \<^item> Timestamp: a valid date that the run time parses back from its ISO text.
  \<^item> Binary: a buffer that is decoded back from its base64 text.
  \<^item> Any: a value that the converter of the AWS SDK converts back, and that the
    equality of Any relates to itself.
  \<^item> Set: every value (the instance check of a set accepts none).
  \<^item> List: the items are stable.
  \<^item> Map: the keys are distinct and none is \<open>__proto__\<close>, no value is \<open>undefined\<close>, and
    the values are stable.
  \<^item> Struct: the keys of the value are distinct and are the names of the
    fields, none of which is \<open>__proto__\<close>; no field is \<open>undefined\<close> or
    written as \<open>undefined\<close> by the attribute codec (whose reader leaves such
    a field unread); the fields are stable; and the class of the struct keeps
    the properties it is constructed from.
  \<^item> Literal: the value is stable for the type of the literal, and the JSON
    reader accepts the written literal (\<open>literal_reread\<close>).
  \<^item> Union: the value is \<open>undefined\<close> or \<open>null\<close> and the union optional; or it is
    stable for the first variant that accepts it and read back through that
    variant (\<open>variant_reread\<close>).
  \<^item> Nothing, Integer, Never, Function: no value.
  Wherever a codec is compiled with validation the validating wrapper lets the
  value through.
\<close>

inductive stable :: "host \<Rightarrow> bool \<Rightarrow> bool \<Rightarrow> shape \<Rightarrow> jsval \<Rightarrow> bool" for h :: host where
  scalar:
    "undecorated S = StringShape \<or> undecorated S = EnumShape Values \<or> undecorated S = BoolShape \<Longrightarrow>
     attr_transparent h va S V \<Longrightarrow> json_transparent h vj S V \<Longrightarrow> stable h va vj S V"
| number:
    "undecorated S = NumberShape \<Longrightarrow> V = JNum n \<Longrightarrow> n \<noteq> NaN \<Longrightarrow>
     parseFloat h (ToString h (JNum n)) = n \<Longrightarrow>
     attr_transparent h va S V \<Longrightarrow> json_transparent h vj S V \<Longrightarrow> stable h va vj S V"
| timestamp:
    "undecorated S = TimestampShape \<Longrightarrow> V = JDate (Some t) \<Longrightarrow>
     Date_parse h (toISOString h t) = Some t \<Longrightarrow>
     attr_transparent h va S V \<Longrightarrow> json_transparent h vj S V \<Longrightarrow> stable h va vj S V"
| binary:
    "undecorated S = BinaryShape \<Longrightarrow> V = JBuf bs \<Longrightarrow>
     base64_decode h (base64_encode h bs) = bs \<Longrightarrow>
     attr_transparent h va S V \<Longrightarrow> json_transparent h vj S V \<Longrightarrow> stable h va vj S V"
| any:
    "undecorated S = AnyShape \<Longrightarrow> Converter_input h V = Inr w \<Longrightarrow> Converter_output h w = Inr V \<Longrightarrow>
     any_equals V V = Inr True \<Longrightarrow>
     attr_transparent h va S V \<Longrightarrow> json_transparent h vj S V \<Longrightarrow> stable h va vj S V"
| set:
    "undecorated S = SetShape Items \<Longrightarrow> stable h va vj S V"
| array:
    "undecorated S = ArrayShape Items \<Longrightarrow> V = JArr xs \<Longrightarrow>
     (\<forall>x \<in> set xs. stable h va False Items x) \<Longrightarrow>
     attr_transparent h va S V \<Longrightarrow> json_transparent h vj S V \<Longrightarrow> stable h va vj S V"
| map:
    "undecorated S = MapShape Items \<Longrightarrow> own_entries V = Inr es \<Longrightarrow> distinct (map fst es) \<Longrightarrow>
     ''__proto__'' \<notin> fst ` set es \<Longrightarrow>
     (\<forall>p \<in> set es. snd p \<noteq> JUndefined \<and> stable h va False Items (snd p)) \<Longrightarrow>
     attr_transparent h va S V \<Longrightarrow> json_transparent h vj S V \<Longrightarrow> stable h va vj S V"
| struct:
    "undecorated S = StructShape nm Fields \<Longrightarrow> own_entries V = Inr es \<Longrightarrow> distinct (map fst es) \<Longrightarrow>
     distinct (map fst Fields) \<Longrightarrow> set (map fst es) = set (map fst Fields) \<Longrightarrow>
     ''__proto__'' \<notin> fst ` set Fields \<Longrightarrow>
     (\<forall>f \<in> set Fields. \<exists>x. map_of es (fst f) = Some x \<and> x \<noteq> JUndefined \<and> stable h va False (snd f) x) \<Longrightarrow>
     (\<forall>f \<in> set Fields. \<forall>x m. map_of es (fst f) = Some x \<longrightarrow> Mapper_of h va (snd f) = Inr m \<longrightarrow>
        m_write m x \<noteq> Inr JUndefined) \<Longrightarrow>
     (\<forall>r. map fst r = map fst Fields \<longrightarrow> construct h (StructShape nm Fields) (JObj r) = Inr (JObj r)) \<Longrightarrow>
     attr_transparent h va S V \<Longrightarrow> json_transparent h vj S V \<Longrightarrow> stable h va vj S V"
| literal:
    "undecorated S = LiteralShape T Val \<Longrightarrow> stable h True False T V \<Longrightarrow> literal_reread h T Val V \<Longrightarrow>
     attr_transparent h va S V \<Longrightarrow> json_transparent h vj S V \<Longrightarrow> stable h va vj S V"
| absent:
    "undecorated S = UnionShape Items \<Longrightarrow> isOptional S \<Longrightarrow> V = JUndefined \<or> V = JNull \<Longrightarrow>
     attr_transparent h va S V \<Longrightarrow> stable h va vj S V"
| variant:
    "undecorated S = UnionShape Items \<Longrightarrow> i < length Items \<Longrightarrow> accepts (Items ! i) V \<Longrightarrow>
     (\<forall>j<i. instance_check (Items ! j) V = Inr False) \<Longrightarrow>
     isOptional S \<longrightarrow> V \<noteq> JUndefined \<and> V \<noteq> JNull \<Longrightarrow>
     stable h True False (Items ! i) V \<Longrightarrow>
     variant_reread (isOptional S) (Mapper_of h True) Items i V \<Longrightarrow>
     variant_reread (isOptional S) (Json_mapper h False) Items i V \<Longrightarrow>
     attr_transparent h va S V \<Longrightarrow> json_transparent h vj S V \<Longrightarrow> stable h va vj S V"

text \<open>The shape is supported by the equality and by both codecs: they compile.\<close>

definition supported :: "host \<Rightarrow> bool \<Rightarrow> bool \<Rightarrow> shape \<Rightarrow> bool" where
  "supported h va vj S \<longleftrightarrow>
     (case Equals_of S of Inl e \<Rightarrow> False | Inr isEqual \<Rightarrow> True) \<and>
     (case Mapper_of h va S of Inl e \<Rightarrow> False | Inr m \<Rightarrow> True) \<and>
     (case Json_mapper h vj S of Inl e \<Rightarrow> False | Inr m \<Rightarrow> True)"

subsection \<open>Lists, entries and the loops over them\<close>

lemma map_of_nth: "distinct (map fst es) \<Longrightarrow> i < length es \<Longrightarrow> map_of es (fst (es ! i)) = Some (snd (es ! i))"
proof -
  assume d: "distinct (map fst es)" and i: "i < length es"
  have "(fst (es ! i), snd (es ! i)) \<in> set es" using i by simp
  then show ?thesis using d by (rule map_of_is_SomeI[rotated])
qed

lemma assign_all_ordinary:
  "''__proto__'' \<notin> fst ` set src \<Longrightarrow> assign_all tgt src = Inr (obj_assign tgt src)"
  by (induction src arbitrary: tgt) (auto simp: assign_prop_def obj_assign_def)

lemma entries_map_eval:
  "own_entries V = Inr es \<Longrightarrow>
   mapE (\<lambda>(name, v). case f v of Inl e \<Rightarrow> Inl e | Inr y \<Rightarrow> Inr (name, y)) es = Inr rs \<Longrightarrow>
   distinct (map fst rs) \<Longrightarrow> ''__proto__'' \<notin> fst ` set rs \<Longrightarrow> entries_map f V = Inr (JObj rs)"
  by (simp add: entries_map_def obj_assign_distinct assign_all_ordinary)

lemma map_of_indexed:
  "map_of (indexed i xs) (show_nat k) = (if i \<le> k \<and> k < i + length xs then Some (xs ! (k - i)) else None)"
proof (induction xs arbitrary: i)
  case Nil
  then show ?case by simp
next
  case (Cons x xs)
  show ?case
  proof (cases "k = i")
    case True
    then show ?thesis by simp
  next
    case False
    then have ne: "show_nat i \<noteq> show_nat k" using show_nat_inj by blast
    have c: "(i \<le> k \<and> k < i + length (x # xs)) = (Suc i \<le> k \<and> k < Suc i + length xs)"
      using False by auto
    have n: "(x # xs) ! (k - i) = xs ! (k - Suc i)" if "Suc i \<le> k"
    proof -
      have "k - i = Suc (k - Suc i)" using that by arith
      then show ?thesis by simp
    qed
    have "map_of (indexed i (x # xs)) (show_nat k) = map_of (indexed (Suc i) xs) (show_nat k)"
      using ne by simp
    also have "\<dots> = (if Suc i \<le> k \<and> k < Suc i + length xs then Some (xs ! (k - Suc i)) else None)"
      by (rule Cons)
    also have "\<dots> = (if i \<le> k \<and> k < i + length (x # xs) then Some ((x # xs) ! (k - i)) else None)"
      unfolding c using n by simp
    finally show ?thesis .
  qed
qed

lemma keys_indexed: "map fst (indexed i xs) = map show_nat [i ..< i + length xs]"
proof (induction xs arbitrary: i)
  case Nil
  then show ?case by simp
next
  case (Cons x xs)
  have "[i ..< i + length (x # xs)] = i # [Suc i ..< Suc i + length xs]" by (simp add: upt_rec)
  then show ?case using Cons[of "Suc i"] by simp
qed

lemma distinct_keys_indexed: "distinct (map fst (indexed i xs))"
  unfolding keys_indexed by (simp add: distinct_map inj_on_def show_nat_inj)

lemma snd_indexed: "map snd (indexed i xs) = xs"
  by (induction xs arbitrary: i) auto

lemma js_get_array_index: "i < length xs \<Longrightarrow> js_get (JArr xs) (show_nat i) = Inr (xs ! i)"
  by (simp add: js_get_def own_entries_def map_of_indexed)

lemma loop_all_True_iff: "loop_all f xs = Inr True \<longleftrightarrow> (\<forall>x \<in> set xs. f x = Inr True)"
  by (induction xs) (auto split: sum.splits if_splits)

lemma mapE_Inr_nth:
  "mapE f xs = Inr ys \<Longrightarrow> length ys = length xs \<and> (\<forall>i<length xs. f (xs ! i) = Inr (ys ! i))"
proof (induction xs arbitrary: ys)
  case Nil
  then show ?case by simp
next
  case (Cons x xs)
  from Cons.prems obtain y ys' where y: "f x = Inr y" and ys': "mapE f xs = Inr ys'"
    and ys: "ys = y # ys'" by (auto split: sum.splits)
  from Cons.IH[OF ys'] show ?case using y ys by (auto simp: nth_Cons split: nat.splits)
qed

lemma array_is_instance_True:
  assumes "array_is_instance isItem V = Inr True"
  shows "\<exists>xs. V = JArr xs \<and> (\<forall>x \<in> set xs. isItem x = Inr True)"
proof -
  from assms obtain xs where V: "V = JArr xs"
    by (cases V) (auto simp: array_is_instance_def isArray_def)
  from assms V obtain oks where oks: "mapE isItem xs = Inr oks" and f: "filter (\<lambda>ok. \<not> ok) oks = []"
    by (auto simp: array_is_instance_def isArray_def elems_def split: sum.splits)
  note n = mapE_Inr_nth[OF oks]
  have a: "\<forall>ok \<in> set oks. ok" using f by (auto simp: filter_empty_conv)
  have "isItem x = Inr True" if "x \<in> set xs" for x
  proof -
    from that obtain i where i: "i < length xs" and x: "xs ! i = x" by (auto simp: in_set_conv_nth)
    have "isItem (xs ! i) = Inr (oks ! i)" using n i by blast
    moreover have "oks ! i" using a i n nth_mem[of i oks] by auto
    ultimately show ?thesis using x by simp
  qed
  with V show ?thesis by blast
qed

lemma round_trip_lists:
  "(\<forall>x \<in> set xs. \<exists>w r. wr x = Inr w \<and> rd w = Inr r \<and> eq r x = Inr True) \<Longrightarrow>
   \<exists>ws rs. mapE wr xs = Inr ws \<and> mapE rd ws = Inr rs \<and> length rs = length xs \<and>
           (\<forall>i<length xs. eq (rs ! i) (xs ! i) = Inr True)"
proof (induction xs)
  case Nil
  then show ?case by simp
next
  case (Cons x xs)
  from Cons.prems obtain w r where w: "wr x = Inr w" and r: "rd w = Inr r" and e: "eq r x = Inr True"
    by auto
  from Cons obtain ws rs where ws: "mapE wr xs = Inr ws" and rs: "mapE rd ws = Inr rs"
    and l: "length rs = length xs" and es: "\<forall>i<length xs. eq (rs ! i) (xs ! i) = Inr True"
    by auto
  have "mapE wr (x # xs) = Inr (w # ws)" using w ws by simp
  moreover have "mapE rd (w # ws) = Inr (r # rs)" using r rs by simp
  moreover have "\<forall>i<length (x # xs). eq ((r # rs) ! i) ((x # xs) ! i) = Inr True"
    using e es by (auto simp: nth_Cons split: nat.splits)
  ultimately show ?case using l by (intro exI[of _ "w # ws"] exI[of _ "r # rs"]) simp
qed

lemma array_equals_pointwise:
  assumes "length rs = length xs" "\<forall>i<length xs. eq (rs ! i) (xs ! i) = Inr True"
  shows "array_equals eq (JArr rs) (JArr xs) = Inr True"
proof -
  have "loop_all (\<lambda>i. case js_get (JArr rs) (show_nat i) of Inl e \<Rightarrow> Inl e | Inr aItem \<Rightarrow>
                       case js_get (JArr xs) (show_nat i) of Inl e \<Rightarrow> Inl e | Inr bItem \<Rightarrow>
                         eq aItem bItem) [0..<length xs] = Inr True"
    unfolding loop_all_True_iff using assms by (auto simp: js_get_array_index)
  then show ?thesis using assms(1)
    by (simp add: array_equals_def js_length_def js_strict_eq_def loop_count_def)
qed

lemma round_trip_entries:
  "(\<forall>x \<in> snd ` set es. \<exists>w r. wr x = Inr w \<and> rd w = Inr r \<and> eq r x = Inr True) \<Longrightarrow>
   \<exists>wes res.
      mapE (\<lambda>(name, v). case wr v of Inl e \<Rightarrow> Inl e | Inr y \<Rightarrow> Inr (name, y)) es = Inr wes \<and>
      map fst wes = map fst es \<and>
      mapE (\<lambda>(name, v). case rd v of Inl e \<Rightarrow> Inl e | Inr y \<Rightarrow> Inr (name, y)) wes = Inr res \<and>
      map fst res = map fst es \<and>
      (\<forall>i<length es. eq (snd (res ! i)) (snd (es ! i)) = Inr True)"
proof (induction es)
  case Nil
  then show ?case by simp
next
  case (Cons p es)
  obtain k x where p: "p = (k, x)" by (cases p)
  from Cons.prems p obtain w r where w: "wr x = Inr w" and r: "rd w = Inr r" and e: "eq r x = Inr True"
    by auto
  have "\<forall>x \<in> snd ` set es. \<exists>w r. wr x = Inr w \<and> rd w = Inr r \<and> eq r x = Inr True"
    using Cons.prems by auto
  from Cons.IH[OF this] obtain wes res where
    wes: "mapE (\<lambda>(name, v). case wr v of Inl e \<Rightarrow> Inl e | Inr y \<Rightarrow> Inr (name, y)) es = Inr wes"
    and kw: "map fst wes = map fst es"
    and res: "mapE (\<lambda>(name, v). case rd v of Inl e \<Rightarrow> Inl e | Inr y \<Rightarrow> Inr (name, y)) wes = Inr res"
    and kr: "map fst res = map fst es"
    and es: "\<forall>i<length es. eq (snd (res ! i)) (snd (es ! i)) = Inr True"
    by blast
  have "mapE (\<lambda>(name, v). case wr v of Inl e \<Rightarrow> Inl e | Inr y \<Rightarrow> Inr (name, y)) (p # es) = Inr ((k, w) # wes)"
    using p w wes by simp
  moreover have "mapE (\<lambda>(name, v). case rd v of Inl e \<Rightarrow> Inl e | Inr y \<Rightarrow> Inr (name, y)) ((k, w) # wes) = Inr ((k, r) # res)"
    using r res by simp
  moreover have "\<forall>i<length (p # es). eq (snd (((k, r) # res) ! i)) (snd ((p # es) ! i)) = Inr True"
    using e es p by (auto simp: nth_Cons split: nat.splits)
  ultimately show ?case using kw kr p
    by (intro exI[of _ "(k, w) # wes"] exI[of _ "(k, r) # res"]) simp
qed

lemma map_equals_pointwise:
  assumes oe: "own_entries V = Inr es" and d: "distinct (map fst es)"
    and kr: "map fst res = map fst es"
    and eqs: "\<forall>i<length es. eq (snd (res ! i)) (snd (es ! i)) = Inr True"
    and nu: "\<forall>i<length es. snd (es ! i) \<noteq> JUndefined"
  shows "map_equals eq (JObj res) V = Inr True"
proof -
  have lr: "length res = length es" using kr by (metis length_map)
  have dr: "distinct (map fst res)" using d kr by simp
  let ?body = "\<lambda>aKey. case js_get (JObj res) aKey of Inl e \<Rightarrow> Inl e | Inr aValue \<Rightarrow>
            case js_get V aKey of Inl e \<Rightarrow> Inl e | Inr bValue \<Rightarrow>
              if bValue = JUndefined then Inr False else eq aValue bValue"
  have "?body k = Inr True" if "k \<in> set (map fst es)" for k
  proof -
    from that obtain i where i: "i < length es" and k: "k = fst (es ! i)"
      by (auto simp: in_set_conv_nth)
    have kr': "fst (res ! i) = k" using kr i lr k by (metis nth_map)
    have a: "js_get (JObj res) k = Inr (snd (res ! i))"
      using map_of_nth[OF dr, of i] i lr kr' by (intro js_get_own) (simp_all add: own_entries_def)
    have b: "js_get V k = Inr (snd (es ! i))"
      using map_of_nth[OF d i] k oe by (intro js_get_own) simp_all
    show ?thesis using a b eqs nu i by simp
  qed
  then have "loop_all ?body (map fst es) = Inr True" unfolding loop_all_True_iff by blast
  then show ?thesis using oe kr lr
    by (simp add: map_equals_def js_keys_def own_entries_def)
qed

lemma map_is_instance_True:
  assumes "map_is_instance isItem V = Inr True"
  shows "\<exists>es. own_entries V = Inr es \<and> (\<forall>v \<in> snd ` set es. isItem v = Inr True)"
proof -
  from assms obtain es where es: "own_entries V = Inr es"
    and l: "loop_all (\<lambda>(key, v). isItem v) es = Inr True"
    by (auto simp: map_is_instance_def split: if_splits sum.splits)
  from l have "\<forall>p \<in> set es. (\<lambda>(key, v). isItem v) p = Inr True" unfolding loop_all_True_iff .
  then have "\<forall>v \<in> snd ` set es. isItem v = Inr True" by auto
  with es show ?thesis by blast
qed


subsection \<open>Decorations, wrappers and compilation\<close>

lemma IsInstance_of_undecorated: "IsInstance_of S = IsInstance_of (undecorated S)"
  by (induction S rule: undecorated.induct) simp_all

lemma Equals_of_undecorated: "Equals_of S = Equals_of (undecorated S)"
  by (induction S rule: undecorated.induct) simp_all

lemma resolveShape_undecorated: "resolveShape h va S = resolveShape h va (undecorated S)"
  by (induction S rule: undecorated.induct) simp_all

lemma Json_visit_undecorated: "Json_visit h S = Json_visit h (undecorated S)"
  by (induction S rule: undecorated.induct) simp_all

lemma isOptional_undecorated: "isOptional S = isOptional (undecorated S)"
  by (induction S rule: undecorated.induct) simp_all

lemma round_trips_I:
  "codec = Inr m \<Longrightarrow> m_write m V = Inr w \<Longrightarrow> m_read m w = Inr r \<Longrightarrow> Equals_of S = Inr eq \<Longrightarrow>
   eq r V = Inr True \<Longrightarrow> round_trips codec S V"
  by (simp add: round_trips_def round_trip_def)

lemma round_trips_D:
  "round_trips (Inr m) S V \<Longrightarrow>
   \<exists>w r eq. m_write m V = Inr w \<and> m_read m w = Inr r \<and> Equals_of S = Inr eq \<and> eq r V = Inr True"
  by (auto simp: round_trips_def round_trip_def split: sum.splits)

lemma accepts_D: "accepts S V \<Longrightarrow> \<exists>isInstance. IsInstance_of S = Inr isInstance \<and> isInstance V = Inr True"
  by (auto simp: accepts_def instance_check_def split: sum.splits)

lemma accepts_I: "IsInstance_of S = Inr isInstance \<Longrightarrow> isInstance V = Inr True \<Longrightarrow> accepts S V"
  by (simp add: accepts_def instance_check_def)

lemma supported_D:
  "supported h va vj S \<Longrightarrow>
   \<exists>eq ma mj. Equals_of S = Inr eq \<and> Mapper_of h va S = Inr ma \<and> Json_mapper h vj S = Inr mj"
  by (auto simp: supported_def split: sum.splits)

lemma supported_I:
  "Equals_of S = Inr eq \<Longrightarrow> Mapper_of h va S = Inr ma \<Longrightarrow> Json_mapper h vj S = Inr mj \<Longrightarrow>
   supported h va vj S"
  by (simp add: supported_def)

lemma Mapper_of_plain:
  "Mapper_of h va S =
     (case attr_plain h va S of Inl e \<Rightarrow> Inl e
      | Inr m \<Rightarrow> if va then ValidatingMapper_of h S m else Inr m)"
  by (simp add: Mapper_of.simps[of h va S] attr_plain_def Let_def split: sum.splits)

lemma Mapper_of_resolves: "Mapper_of h va S = Inr ma \<Longrightarrow> \<exists>m0. resolveShape h va S = Inr m0"
  by (cases "resolveShape h va S") (auto simp: Mapper_of.simps[of h va S])

lemma Json_mapper_visits: "Json_mapper h vj S = Inr mj \<Longrightarrow> \<exists>m0. Json_visit h S = Inr m0"
  by (cases "Json_visit h S") (auto simp: Json_mapper.simps[of h vj S])

lemma Json_mapper_unvalidated:
  "Json_visit h S = Inr m \<Longrightarrow> Json_mapper h False S = Inr (if isOptional S then optional_mapper m else m)"
  by (simp add: Json_mapper.simps[of h False S])

text \<open>The attribute codec behaves on \<open>V\<close> as the mapper of \<open>resolve()\<close>.\<close>

lemma attr_wrap:
  assumes ma: "Mapper_of h va S = Inr ma" and tr: "attr_transparent h va S V"
    and m0: "attr_plain h va S = Inr m" and w: "m_write m V = Inr w" and r: "m_read m w = Inr r"
  shows "m_write ma V = Inr w \<and> m_read ma w = Inr r"
proof (cases va)
  case False
  then have "ma = m" using ma m0 by (simp add: Mapper_of_plain)
  then show ?thesis using w r by simp
next
  case True
  then have v: "ValidatingMapper_of h S m = Inr ma" using ma m0 by (simp add: Mapper_of_plain)
  have "lets_through h S m V" using tr True m0 by (simp add: attr_transparent_def)
  then show ?thesis using v w r by (simp add: lets_through_def)
qed

text \<open>The JSON codec behaves on \<open>V\<close> as the mapper of the visitor, unless the optional wrapper steps in.\<close>

lemma json_wrap:
  assumes mj: "Json_mapper h vj S = Inr mj" and tr: "json_transparent h vj S V"
    and m0: "Json_visit h S = Inr m" and w: "m_write m V = Inr w" and r: "m_read m w = Inr r"
    and opt: "isOptional S \<longrightarrow> V \<noteq> JUndefined \<and> V \<noteq> JNull \<and> w \<noteq> JUndefined \<and> w \<noteq> JNull"
  shows "m_write mj V = Inr w \<and> m_read mj w = Inr r"
proof -
  obtain mv where mv: "(if vj then ValidatingMapper_of h S m else Inr m) = Inr mv"
    and mj': "mj = (if isOptional S then optional_mapper mv else mv)"
    using mj m0 by (auto simp: Json_mapper.simps[of h vj S] split: sum.splits)
  have b: "m_write mv V = Inr w \<and> m_read mv w = Inr r"
  proof (cases vj)
    case False
    then show ?thesis using mv w r by simp
  next
    case True
    then have "lets_through h S m V" using tr m0 by (simp add: json_transparent_def)
    then show ?thesis using mv True w r by (simp add: lets_through_def)
  qed
  show ?thesis using b opt by (simp add: mj' optional_mapper_def)
qed

text \<open>From what the two uncompiled mappers do on \<open>V\<close> to the round trips, for a shape that is no union.\<close>

lemma finish_round_trips:
  assumes no: "\<not> isOptional S" and sup: "supported h va vj S"
    and ta: "attr_transparent h va S V" and tj: "json_transparent h vj S V"
    and eq: "Equals_of S = Inr eq"
    and ra: "resolveShape h va S = Inr a0" and rj: "Json_visit h S = Inr j0"
    and a: "m_write a0 V = Inr wa" "m_read a0 wa = Inr xa" "eq xa V = Inr True"
    and j: "m_write j0 V = Inr wj" "m_read j0 wj = Inr xj" "eq xj V = Inr True"
  shows "round_trips (Mapper_of h va S) S V \<and> round_trips (Json_mapper h vj S) S V"
proof -
  from supported_D[OF sup] obtain ma mj where
    ma: "Mapper_of h va S = Inr ma" and mj: "Json_mapper h vj S = Inr mj" by blast
  have p: "attr_plain h va S = Inr a0" using ra no by (simp add: attr_plain_def)
  from attr_wrap[OF ma ta p a(1,2)] have "m_write ma V = Inr wa \<and> m_read ma wa = Inr xa" .
  then have 1: "round_trips (Mapper_of h va S) S V"
    using ma eq a(3) by (auto intro: round_trips_I)
  from json_wrap[OF mj tj rj j(1,2)] no have "m_write mj V = Inr wj \<and> m_read mj wj = Inr xj" by simp
  then have 2: "round_trips (Json_mapper h vj S) S V"
    using mj eq j(3) by (auto intro: round_trips_I)
  from 1 2 show ?thesis by blast
qed

lemma isOptional_union: "isOptional S \<Longrightarrow> \<exists>Items. undecorated S = UnionShape Items"
  by (induction S rule: isOptional.induct) auto

subsection \<open>The round trip, shape by shape\<close>

lemma string_case:
  assumes u: "undecorated S = StringShape"
    and ta: "attr_transparent h va S V" and tj: "json_transparent h vj S V"
    and acc: "accepts S V" and sup: "supported h va vj S"
  shows "round_trips (Mapper_of h va S) S V \<and> round_trips (Json_mapper h vj S) S V"
proof -
  have no: "\<not> isOptional S" using isOptional_union[of S] u by auto
  have "js_typeof V = ''string''"
    using accepts_D[OF acc] IsInstance_of_undecorated[of S] u by auto
  then obtain s where V: "V = JStr s" by (cases V) (auto simp: js_typeof_def split: if_splits)
  let ?j = "json_typed_mapper ''string'' ''expected string but got ${typeof s}''"
  let ?eq = "\<lambda>a b. (Inr (js_strict_eq a b) :: exn + bool)"
  have eq: "Equals_of S = Inr ?eq" using Equals_of_undecorated[of S] u by simp
  have ra: "resolveShape h va S = Inr string_mapper" using resolveShape_undecorated[of h va S] u by simp
  have rj: "Json_visit h S = Inr ?j" using Json_visit_undecorated[of h S] u by simp
  have a: "m_write string_mapper V = Inr (JObj [(''S'', V)])" "m_read string_mapper (JObj [(''S'', V)]) = Inr V"
    by (simp_all add: V string_mapper_def assertIsType_def assertHasKey_def js_get_def own_entries_def js_typeof_def)
  have j: "m_write ?j V = Inr V" "m_read ?j V = Inr V"
    by (simp_all add: V json_typed_mapper_def js_typeof_def)
  have e: "?eq V V = Inr True" by (simp add: V js_strict_eq_def)
  show ?thesis by (rule finish_round_trips[OF no sup ta tj eq ra rj a e j e])
qed

lemma enum_case:
  assumes u: "undecorated S = EnumShape Values"
    and ta: "attr_transparent h va S V" and tj: "json_transparent h vj S V"
    and acc: "accepts S V" and sup: "supported h va vj S"
  shows "round_trips (Mapper_of h va S) S V \<and> round_trips (Json_mapper h vj S) S V"
proof -
  have no: "\<not> isOptional S" using isOptional_union[of S] u by auto
  let ?is = "\<lambda>a. (Inr (a \<in> set (map (\<lambda>(name, v). JStr v) Values)) :: exn + bool)"
  have m: "V \<in> set (map (\<lambda>(name, v). JStr v) Values)"
    using accepts_D[OF acc] IsInstance_of_undecorated[of S] u by auto
  then obtain s where V: "V = JStr s" by auto
  let ?j = "json_enum_mapper (map snd Values) ?is"
  let ?eq = "\<lambda>a b. (Inr (js_strict_eq a b) :: exn + bool)"
  have eq: "Equals_of S = Inr ?eq" using Equals_of_undecorated[of S] u by simp
  have ra: "resolveShape h va S = Inr string_mapper" using resolveShape_undecorated[of h va S] u by simp
  have rj: "Json_visit h S = Inr ?j" using Json_visit_undecorated[of h S] u by simp
  have a: "m_write string_mapper V = Inr (JObj [(''S'', V)])" "m_read string_mapper (JObj [(''S'', V)]) = Inr V"
    by (simp_all add: V string_mapper_def assertIsType_def assertHasKey_def js_get_def own_entries_def js_typeof_def)
  have j: "m_write ?j V = Inr V" "m_read ?j V = Inr V"
    using m by (simp_all add: json_enum_mapper_def)
  have e: "?eq V V = Inr True" by (simp add: V js_strict_eq_def)
  show ?thesis by (rule finish_round_trips[OF no sup ta tj eq ra rj a e j e])
qed

lemma bool_case:
  assumes u: "undecorated S = BoolShape"
    and ta: "attr_transparent h va S V" and tj: "json_transparent h vj S V"
    and acc: "accepts S V" and sup: "supported h va vj S"
  shows "round_trips (Mapper_of h va S) S V \<and> round_trips (Json_mapper h vj S) S V"
proof -
  have no: "\<not> isOptional S" using isOptional_union[of S] u by auto
  have "js_typeof V = ''boolean''"
    using accepts_D[OF acc] IsInstance_of_undecorated[of S] u by auto
  then obtain b where V: "V = JBool b" by (cases V) (auto simp: js_typeof_def split: if_splits)
  let ?j = "json_typed_mapper ''boolean'' ''expected boolean but got ${typeof b}''"
  let ?eq = "\<lambda>a b. (Inr (js_strict_eq a b) :: exn + bool)"
  have eq: "Equals_of S = Inr ?eq" using Equals_of_undecorated[of S] u by simp
  have ra: "resolveShape h va S = Inr bool_mapper" using resolveShape_undecorated[of h va S] u by simp
  have rj: "Json_visit h S = Inr ?j" using Json_visit_undecorated[of h S] u by simp
  have a: "m_write bool_mapper V = Inr (JObj [(''BOOL'', V)])" "m_read bool_mapper (JObj [(''BOOL'', V)]) = Inr V"
    by (simp_all add: V bool_mapper_def assertHasKey_def js_get_def own_entries_def)
  have j: "m_write ?j V = Inr V" "m_read ?j V = Inr V"
    by (simp_all add: V json_typed_mapper_def js_typeof_def)
  have e: "?eq V V = Inr True" by (simp add: V js_strict_eq_def)
  show ?thesis by (rule finish_round_trips[OF no sup ta tj eq ra rj a e j e])
qed

lemma number_case:
  assumes u: "undecorated S = NumberShape" and V: "V = JNum n" and n: "n \<noteq> NaN"
    and p: "parseFloat h (ToString h (JNum n)) = n"
    and ta: "attr_transparent h va S V" and tj: "json_transparent h vj S V"
    and sup: "supported h va vj S"
  shows "round_trips (Mapper_of h va S) S V \<and> round_trips (Json_mapper h vj S) S V"
proof -
  have no: "\<not> isOptional S" using isOptional_union[of S] u by auto
  let ?a = "number_mapper h (parseFloat h)"
  let ?j = "json_typed_mapper ''number'' ''expected number but got ${typeof n}''"
  let ?eq = "\<lambda>a b. (Inr (js_strict_eq a b) :: exn + bool)"
  let ?w = "JObj [(''N'', JStr (ToString h V))]"
  have eq: "Equals_of S = Inr ?eq" using Equals_of_undecorated[of S] u by simp
  have ra: "resolveShape h va S = Inr ?a" using resolveShape_undecorated[of h va S] u by simp
  have rj: "Json_visit h S = Inr ?j" using Json_visit_undecorated[of h S] u by simp
  have a: "m_write ?a V = Inr ?w" "m_read ?a ?w = Inr V"
    using p by (simp_all add: V number_mapper_def assertIsType_def assertHasKey_def js_get_def
        own_entries_def js_typeof_def)
  have j: "m_write ?j V = Inr V" "m_read ?j V = Inr V"
    by (simp_all add: V json_typed_mapper_def js_typeof_def)
  have e: "?eq V V = Inr True" using n by (simp add: V js_strict_eq_def)
  show ?thesis by (rule finish_round_trips[OF no sup ta tj eq ra rj a e j e])
qed

lemma timestamp_case:
  assumes u: "undecorated S = TimestampShape" and V: "V = JDate (Some t)"
    and p: "Date_parse h (toISOString h t) = Some t"
    and ta: "attr_transparent h va S V" and tj: "json_transparent h vj S V"
    and sup: "supported h va vj S"
  shows "round_trips (Mapper_of h va S) S V \<and> round_trips (Json_mapper h vj S) S V"
proof -
  have no: "\<not> isOptional S" using isOptional_union[of S] u by auto
  let ?a = "timestamp_mapper h" and ?j = "json_timestamp_mapper h"
  let ?wa = "JObj [(''S'', JStr (toISOString h t))]" and ?wj = "JStr (toISOString h t)"
  have eq: "Equals_of S = Inr timestamp_equals" using Equals_of_undecorated[of S] u by simp
  have ra: "resolveShape h va S = Inr ?a" using resolveShape_undecorated[of h va S] u by simp
  have rj: "Json_visit h S = Inr ?j" using Json_visit_undecorated[of h S] u by simp
  have a: "m_write ?a V = Inr ?wa" "m_read ?a ?wa = Inr V"
    using p by (simp_all add: V timestamp_mapper_def assertIsType_def assertHasKey_def js_get_def
        own_entries_def js_typeof_def)
  have j: "m_write ?j V = Inr ?wj" "m_read ?j ?wj = Inr V"
    using p by (simp_all add: V json_timestamp_mapper_def)
  have e: "timestamp_equals V V = Inr True" by (simp add: V timestamp_equals_def getTime_def)
  show ?thesis by (rule finish_round_trips[OF no sup ta tj eq ra rj a e j e])
qed

lemma binary_equals_refl: "binary_equals (JBuf bs) (JBuf bs) = Inr True"
proof -
  have "loop_all (\<lambda>i. case readUInt8 (JBuf bs) i of Inl e \<Rightarrow> Inl e | Inr x \<Rightarrow>
                      case readUInt8 (JBuf bs) i of Inl e \<Rightarrow> Inl e | Inr y \<Rightarrow> Inr (x = y))
          [0..<length bs] = Inr True"
    unfolding loop_all_True_iff by (simp add: readUInt8_def)
  then show ?thesis
    by (simp add: binary_equals_def js_length_def js_strict_eq_def loop_count_def)
qed

lemma binary_case:
  assumes u: "undecorated S = BinaryShape" and V: "V = JBuf bs"
    and p: "base64_decode h (base64_encode h bs) = bs"
    and ta: "attr_transparent h va S V" and tj: "json_transparent h vj S V"
    and sup: "supported h va vj S"
  shows "round_trips (Mapper_of h va S) S V \<and> round_trips (Json_mapper h vj S) S V"
proof -
  have no: "\<not> isOptional S" using isOptional_union[of S] u by auto
  let ?a = "binary_mapper" and ?j = "json_binary_mapper h"
  let ?wa = "JObj [(''B'', V)]" and ?wj = "JStr (base64_encode h bs)"
  have eq: "Equals_of S = Inr binary_equals" using Equals_of_undecorated[of S] u by simp
  have ra: "resolveShape h va S = Inr ?a" using resolveShape_undecorated[of h va S] u by simp
  have rj: "Json_visit h S = Inr ?j" using Json_visit_undecorated[of h S] u by simp
  have a: "m_write ?a V = Inr ?wa" "m_read ?a ?wa = Inr V"
    by (simp_all add: V binary_mapper_def assertHasKey_def js_get_def own_entries_def)
  have j: "m_write ?j V = Inr ?wj" "m_read ?j ?wj = Inr V"
    using p by (simp_all add: V json_binary_mapper_def)
  have e: "binary_equals V V = Inr True" unfolding V by (rule binary_equals_refl)
  show ?thesis by (rule finish_round_trips[OF no sup ta tj eq ra rj a e j e])
qed

lemma any_case:
  assumes u: "undecorated S = AnyShape" and ci: "Converter_input h V = Inr w"
    and co: "Converter_output h w = Inr V" and e: "any_equals V V = Inr True"
    and ta: "attr_transparent h va S V" and tj: "json_transparent h vj S V"
    and sup: "supported h va vj S"
  shows "round_trips (Mapper_of h va S) S V \<and> round_trips (Json_mapper h vj S) S V"
proof -
  have no: "\<not> isOptional S" using isOptional_union[of S] u by auto
  have eq: "Equals_of S = Inr any_equals" using Equals_of_undecorated[of S] u by simp
  have ra: "resolveShape h va S = Inr (any_mapper h)" using resolveShape_undecorated[of h va S] u by simp
  have rj: "Json_visit h S = Inr json_any_mapper" using Json_visit_undecorated[of h S] u by simp
  have a: "m_write (any_mapper h) V = Inr w" "m_read (any_mapper h) w = Inr V"
    using ci co by (simp_all add: any_mapper_def)
  have j: "m_write json_any_mapper V = Inr V" "m_read json_any_mapper V = Inr V"
    by (simp_all add: json_any_mapper_def)
  show ?thesis by (rule finish_round_trips[OF no sup ta tj eq ra rj a e j e])
qed

lemma set_case:
  assumes u: "undecorated S = SetShape Items" and acc: "accepts S V"
  shows "round_trips (Mapper_of h va S) S V \<and> round_trips (Json_mapper h vj S) S V"
proof -
  from accepts_D[OF acc] obtain isInstance where
    i: "IsInstance_of S = Inr isInstance" and t: "isInstance V = Inr True" by blast
  have "IsInstance_of S = IsInstance_of (SetShape Items)" using IsInstance_of_undecorated[of S] u by simp
  with i obtain isItem where "isInstance = set_is_instance isItem" by (auto split: sum.splits)
  with t show ?thesis using set_is_instance_never by blast
qed

lemma array_case:
  assumes u: "undecorated S = ArrayShape Items" and V: "V = JArr xs"
    and ih: "\<forall>x \<in> set xs. accepts Items x \<longrightarrow> supported h va False Items \<longrightarrow>
               round_trips (Mapper_of h va Items) Items x \<and> round_trips (Json_mapper h False Items) Items x"
    and ta: "attr_transparent h va S V" and tj: "json_transparent h vj S V"
    and acc: "accepts S V" and sup: "supported h va vj S"
  shows "round_trips (Mapper_of h va S) S V \<and> round_trips (Json_mapper h vj S) S V"
proof -
  have no: "\<not> isOptional S" using isOptional_union[of S] u by auto
  from supported_D[OF sup] obtain eq ma mj where
    eq: "Equals_of S = Inr eq" and ma: "Mapper_of h va S = Inr ma" and mj: "Json_mapper h vj S = Inr mj"
    by blast
  from eq obtain eqi where eqi: "Equals_of Items = Inr eqi" and eq': "eq = array_equals eqi"
    using Equals_of_undecorated[of S] u by (auto split: sum.splits)
  from Mapper_of_resolves[OF ma] obtain a0 where a0: "resolveShape h va S = Inr a0" by blast
  then obtain mai where mai: "Mapper_of h va Items = Inr mai" and a0': "a0 = array_mapper mai"
    using resolveShape_undecorated[of h va S] u by (auto split: sum.splits)
  from Json_mapper_visits[OF mj] obtain j0 where j0: "Json_visit h S = Inr j0" by blast
  then obtain mji where mji: "Json_mapper h False Items = Inr mji" and j0': "j0 = json_array_mapper mji"
    using Json_visit_undecorated[of h S] u by (auto split: sum.splits)
  have supi: "supported h va False Items" by (rule supported_I[OF eqi mai mji])
  from accepts_D[OF acc] obtain isInstance where
    i: "IsInstance_of S = Inr isInstance" and t: "isInstance V = Inr True" by blast
  from i obtain isItem where isItem: "IsInstance_of Items = Inr isItem"
    and i': "isInstance = array_is_instance isItem"
    using IsInstance_of_undecorated[of S] u by (auto split: sum.splits)
  from array_is_instance_True[of isItem V] t i' V have it: "\<forall>x \<in> set xs. isItem x = Inr True" by simp
  have rt: "round_trips (Inr mai) Items x \<and> round_trips (Inr mji) Items x" if "x \<in> set xs" for x
    using ih that it accepts_I[OF isItem] supi mai mji by auto
  have "\<forall>x \<in> set xs. \<exists>w r. m_write mai x = Inr w \<and> m_read mai w = Inr r \<and> eqi r x = Inr True"
    using rt round_trips_D[of mai Items] eqi by fastforce
  from round_trip_lists[OF this] obtain ws rs where
    a: "mapE (m_write mai) xs = Inr ws" "mapE (m_read mai) ws = Inr rs" "length rs = length xs"
      "\<forall>i<length xs. eqi (rs ! i) (xs ! i) = Inr True" by blast
  have "\<forall>x \<in> set xs. \<exists>w r. m_write mji x = Inr w \<and> m_read mji w = Inr r \<and> eqi r x = Inr True"
    using rt round_trips_D[of mji Items] eqi by fastforce
  from round_trip_lists[OF this] obtain ws' rs' where
    j: "mapE (m_write mji) xs = Inr ws'" "mapE (m_read mji) ws' = Inr rs'" "length rs' = length xs"
      "\<forall>i<length xs. eqi (rs' ! i) (xs ! i) = Inr True" by blast
  have a1: "m_write a0 V = Inr (JObj [(''L'', JArr ws)])"
    using a(1) by (simp add: a0' V array_mapper_def array_map_def)
  have a2: "m_read a0 (JObj [(''L'', JArr ws)]) = Inr (JArr rs)"
    using a(2) by (simp add: a0' array_mapper_def array_map_def assertHasKey_def js_get_def own_entries_def)
  have a3: "eq (JArr rs) V = Inr True"
    unfolding eq' V by (rule array_equals_pointwise[OF a(3,4)])
  have j1: "m_write j0 V = Inr (JArr ws')" using j(1) by (simp add: j0' V json_array_mapper_def array_map_def)
  have j2: "m_read j0 (JArr ws') = Inr (JArr rs')" using j(2) by (simp add: j0' json_array_mapper_def array_map_def)
  have j3: "eq (JArr rs') V = Inr True"
    unfolding eq' V by (rule array_equals_pointwise[OF j(3,4)])
  show ?thesis by (rule finish_round_trips[OF no sup ta tj eq a0 j0 a1 a2 a3 j1 j2 j3])
qed

lemma map_case:
  assumes u: "undecorated S = MapShape Items" and es: "own_entries V = Inr es"
    and d: "distinct (map fst es)" and np: "''__proto__'' \<notin> fst ` set es"
    and ih: "\<forall>p \<in> set es. snd p \<noteq> JUndefined \<and>
               (accepts Items (snd p) \<longrightarrow> supported h va False Items \<longrightarrow>
                round_trips (Mapper_of h va Items) Items (snd p) \<and>
                round_trips (Json_mapper h False Items) Items (snd p))"
    and ta: "attr_transparent h va S V" and tj: "json_transparent h vj S V"
    and acc: "accepts S V" and sup: "supported h va vj S"
  shows "round_trips (Mapper_of h va S) S V \<and> round_trips (Json_mapper h vj S) S V"
proof -
  have no: "\<not> isOptional S" using isOptional_union[of S] u by auto
  from supported_D[OF sup] obtain eq ma mj where
    eq: "Equals_of S = Inr eq" and ma: "Mapper_of h va S = Inr ma" and mj: "Json_mapper h vj S = Inr mj"
    by blast
  from eq obtain eqi where eqi: "Equals_of Items = Inr eqi" and eq': "eq = map_equals eqi"
    using Equals_of_undecorated[of S] u by (auto split: sum.splits)
  from Mapper_of_resolves[OF ma] obtain a0 where a0: "resolveShape h va S = Inr a0" by blast
  then obtain mai where mai: "Mapper_of h va Items = Inr mai" and a0': "a0 = map_mapper mai"
    using resolveShape_undecorated[of h va S] u by (auto split: sum.splits)
  from Json_mapper_visits[OF mj] obtain j0 where j0: "Json_visit h S = Inr j0" by blast
  then obtain mji where mji: "Json_mapper h False Items = Inr mji" and j0': "j0 = json_map_mapper mji"
    using Json_visit_undecorated[of h S] u by (auto split: sum.splits)
  have supi: "supported h va False Items" by (rule supported_I[OF eqi mai mji])
  from accepts_D[OF acc] obtain isInstance where
    i: "IsInstance_of S = Inr isInstance" and t: "isInstance V = Inr True" by blast
  from i obtain isItem where isItem: "IsInstance_of Items = Inr isItem"
    and i': "isInstance = map_is_instance isItem"
    using IsInstance_of_undecorated[of S] u by (auto split: sum.splits)
  from map_is_instance_True[of isItem V] t i' es have it: "\<forall>v \<in> snd ` set es. isItem v = Inr True" by simp
  have rt: "round_trips (Inr mai) Items x \<and> round_trips (Inr mji) Items x" if "x \<in> snd ` set es" for x
    using ih that it accepts_I[OF isItem] supi mai mji by auto
  have nu: "\<forall>i<length es. snd (es ! i) \<noteq> JUndefined" using ih by simp
  have keys: "distinct (map fst rs) \<and> ''__proto__'' \<notin> fst ` set rs" if "map fst rs = map fst es" for rs :: "(string \<times> jsval) list"
  proof -
    have "fst ` set rs = fst ` set es" using that by (metis set_map)
    then show ?thesis using that d np by simp
  qed
  have "\<forall>x \<in> snd ` set es. \<exists>w r. m_write mai x = Inr w \<and> m_read mai w = Inr r \<and> eqi r x = Inr True"
    using rt round_trips_D[of mai Items] eqi by fastforce
  from round_trip_entries[OF this] obtain wes res where
    a: "mapE (\<lambda>(name, v). case m_write mai v of Inl e \<Rightarrow> Inl e | Inr y \<Rightarrow> Inr (name, y)) es = Inr wes"
      "map fst wes = map fst es"
      "mapE (\<lambda>(name, v). case m_read mai v of Inl e \<Rightarrow> Inl e | Inr y \<Rightarrow> Inr (name, y)) wes = Inr res"
      "map fst res = map fst es"
      "\<forall>i<length es. eqi (snd (res ! i)) (snd (es ! i)) = Inr True"
    by blast
  have "\<forall>x \<in> snd ` set es. \<exists>w r. m_write mji x = Inr w \<and> m_read mji w = Inr r \<and> eqi r x = Inr True"
    using rt round_trips_D[of mji Items] eqi by fastforce
  from round_trip_entries[OF this] obtain wes' res' where
    j: "mapE (\<lambda>(name, v). case m_write mji v of Inl e \<Rightarrow> Inl e | Inr y \<Rightarrow> Inr (name, y)) es = Inr wes'"
      "map fst wes' = map fst es"
      "mapE (\<lambda>(name, v). case m_read mji v of Inl e \<Rightarrow> Inl e | Inr y \<Rightarrow> Inr (name, y)) wes' = Inr res'"
      "map fst res' = map fst es"
      "\<forall>i<length es. eqi (snd (res' ! i)) (snd (es ! i)) = Inr True"
    by blast
  have wa: "entries_map (m_write mai) V = Inr (JObj wes)"
    using es a(1) keys[OF a(2)] by (intro entries_map_eval) simp_all
  have xa: "entries_map (m_read mai) (JObj wes) = Inr (JObj res)"
    using a(3) keys[OF a(4)] by (intro entries_map_eval[where es = wes]) (simp_all add: own_entries_def)
  have wj: "entries_map (m_write mji) V = Inr (JObj wes')"
    using es j(1) keys[OF j(2)] by (intro entries_map_eval) simp_all
  have xj: "entries_map (m_read mji) (JObj wes') = Inr (JObj res')"
    using j(3) keys[OF j(4)] by (intro entries_map_eval[where es = wes']) (simp_all add: own_entries_def)
  have a1: "m_write a0 V = Inr (JObj [(''M'', JObj wes)])" using wa by (simp add: a0' map_mapper_def)
  have a2: "m_read a0 (JObj [(''M'', JObj wes)]) = Inr (JObj res)"
    using xa by (simp add: a0' map_mapper_def assertHasKey_def js_get_def own_entries_def)
  have a3: "eq (JObj res) V = Inr True"
    unfolding eq' by (rule map_equals_pointwise[OF es d a(4,5) nu])
  have j1: "m_write j0 V = Inr (JObj wes')" using wj by (simp add: j0' json_map_mapper_def)
  have j2: "m_read j0 (JObj wes') = Inr (JObj res')" using xj by (simp add: j0' json_map_mapper_def)
  have j3: "eq (JObj res') V = Inr True"
    unfolding eq' by (rule map_equals_pointwise[OF es d j(4,5) nu])
  show ?thesis by (rule finish_round_trips[OF no sup ta tj eq a0 j0 a1 a2 a3 j1 j2 j3])
qed

lemma sequenceE_fields:
  assumes "sequenceE (map (\<lambda>(name, m). case c m of Inl e \<Rightarrow> Inl e | Inr x \<Rightarrow> Inr (name, x)) Fields) = Inr cs"
  shows "map fst cs = map fst Fields \<and> (\<forall>i<length Fields. c (snd (Fields ! i)) = Inr (snd (cs ! i)))"
proof -
  let ?f = "\<lambda>(name, m). case c m of Inl e \<Rightarrow> Inl e | Inr x \<Rightarrow> Inr (name, x)"
  note sq = sequenceE_map_Inr[OF assms]
  have e: "fst (cs ! i) = fst (Fields ! i) \<and> c (snd (Fields ! i)) = Inr (snd (cs ! i))"
    if "i < length Fields" for i
  proof -
    have "?f (Fields ! i) = Inr (cs ! i)" using sq that by blast
    then have "\<exists>x. c (snd (Fields ! i)) = Inr x \<and> cs ! i = (fst (Fields ! i), x)"
      by (cases "Fields ! i"; cases "c (snd (Fields ! i))") auto
    then show ?thesis by auto
  qed
  have "map fst cs = map fst Fields"
  proof (rule nth_equalityI)
    show "length (map fst cs) = length (map fst Fields)" using sq by simp
    show "map fst cs ! i = map fst Fields ! i" if "i < length (map fst cs)" for i
      using that sq e by simp
  qed
  with e show ?thesis by blast
qed

lemma keyed_nth:
  "map fst L = map fst Fields \<Longrightarrow> i < length Fields \<Longrightarrow> i < length L \<and> fst (L ! i) = fst (Fields ! i)"
  by (metis length_map nth_map)

lemma keyed_lookup:
  assumes "map fst L = map fst Fields" "distinct (map fst Fields)" "i < length Fields"
  shows "map_of L (fst (Fields ! i)) = Some (snd (L ! i))"
proof -
  have "i < length L" "fst (L ! i) = fst (Fields ! i)" using keyed_nth[OF assms(1,3)] by simp_all
  moreover have "distinct (map fst L)" using assms(1,2) by simp
  ultimately show ?thesis using map_of_nth[of L i] by simp
qed

lemma keyed_assign:
  assumes "map fst L = map fst Fields" "distinct (map fst Fields)" "''__proto__'' \<notin> fst ` set Fields"
  shows "assign_all [] L = Inr L"
proof -
  have "fst ` set L = fst ` set Fields" using assms(1) by (metis set_map)
  then have "''__proto__'' \<notin> fst ` set L" using assms(3) by simp
  moreover have "distinct (map fst L)" using assms(1,2) by simp
  ultimately show ?thesis by (simp add: assign_all_ordinary obj_assign_distinct)
qed

lemma keyed_spread:
  assumes "map fst L = map fst Fields" "distinct (map fst Fields)"
  shows "obj_assign [] L = L"
proof -
  have "distinct (map fst L)" using assms by simp
  then show ?thesis by (simp add: obj_assign_distinct)
qed

text \<open>The list of the fields' names with one value each, in declaration order.\<close>

definition keyed :: "(string \<times> 'a) list \<Rightarrow> (nat \<Rightarrow> 'b) \<Rightarrow> (string \<times> 'b) list" where
  "keyed Fields f = map (\<lambda>i. (fst (Fields ! i), f i)) [0..<length Fields]"

lemma keyed_keys: "map fst (keyed Fields f) = map fst Fields"
  by (rule nth_equalityI) (simp_all add: keyed_def)

lemma keyed_value: "i < length Fields \<Longrightarrow> keyed Fields f ! i = (fst (Fields ! i), f i)"
  by (simp add: keyed_def)

lemma fields_mapE:
  assumes k: "map fst cs = map fst Fields" and g: "own_entries v = Inr es"
    and x: "\<forall>i<length Fields. \<exists>x. map_of es (fst (Fields ! i)) = Some x \<and> f (snd (cs ! i)) x = Inr (ys i)"
  shows "mapE (\<lambda>(name, codec). case js_get v name of Inl e \<Rightarrow> Inl e | Inr x \<Rightarrow>
                 case f codec x of Inl e \<Rightarrow> Inl e | Inr y \<Rightarrow> Inr (name, y)) cs = Inr (keyed Fields ys)"
proof (rule mapE_all_Inr)
  have len: "length cs = length Fields" using k by (metis length_map)
  show "length (keyed Fields ys) = length cs" using len by (simp add: keyed_def)
  show "\<forall>i<length cs. (case cs ! i of (name, codec) \<Rightarrow> case js_get v name of Inl e \<Rightarrow> Inl e | Inr x \<Rightarrow>
                 case f codec x of Inl e \<Rightarrow> Inl e | Inr y \<Rightarrow> Inr (name, y)) = Inr (keyed Fields ys ! i)"
  proof (intro allI impI)
    fix i assume "i < length cs"
    then have i: "i < length Fields" using len by simp
    from x i obtain xi where xi: "map_of es (fst (Fields ! i)) = Some xi" "f (snd (cs ! i)) xi = Inr (ys i)"
      by blast
    have c: "cs ! i = (fst (Fields ! i), snd (cs ! i))" using keyed_nth[OF k i] by (metis prod.collapse)
    have "js_get v (fst (Fields ! i)) = Inr xi" by (rule js_get_own[OF g xi(1)])
    then show "(case cs ! i of (name, codec) \<Rightarrow> case js_get v name of Inl e \<Rightarrow> Inl e | Inr x \<Rightarrow>
                 case f codec x of Inl e \<Rightarrow> Inl e | Inr y \<Rightarrow> Inr (name, y)) = Inr (keyed Fields ys ! i)"
      using xi(2) i by (subst c) (simp add: keyed_value)
  qed
qed

lemma fields_traverse:
  assumes k: "map fst cs = map fst Fields" and df: "distinct (map fst Fields)"
    and np: "''__proto__'' \<notin> fst ` set Fields" and g: "own_entries v = Inr es"
    and x: "\<forall>i<length Fields. \<exists>x. map_of es (fst (Fields ! i)) = Some x \<and> x \<noteq> JUndefined \<and>
              f (snd (cs ! i)) x = Inr (ys i)"
  shows "traverse f cs v = Inr (JObj (keyed Fields ys))"
proof -
  have "mapE (\<lambda>(name, mapper).
              case js_get v name of
                Inl e \<Rightarrow> Inl e
              | Inr x \<Rightarrow>
                 if x = JUndefined then Inr (name, JUndefined)
                 else (case f mapper x of Inl e \<Rightarrow> Inl e | Inr y \<Rightarrow> Inr (name, y))) cs = Inr (keyed Fields ys)"
  proof (rule mapE_all_Inr)
    have len: "length cs = length Fields" using k by (metis length_map)
    show "length (keyed Fields ys) = length cs" using len by (simp add: keyed_def)
    show "\<forall>i<length cs. (case cs ! i of (name, mapper) \<Rightarrow>
              case js_get v name of
                Inl e \<Rightarrow> Inl e
              | Inr x \<Rightarrow>
                 if x = JUndefined then Inr (name, JUndefined)
                 else (case f mapper x of Inl e \<Rightarrow> Inl e | Inr y \<Rightarrow> Inr (name, y))) = Inr (keyed Fields ys ! i)"
    proof (intro allI impI)
      fix i assume "i < length cs"
      then have i: "i < length Fields" using len by simp
      from x i obtain xi where xi: "map_of es (fst (Fields ! i)) = Some xi" "xi \<noteq> JUndefined"
        "f (snd (cs ! i)) xi = Inr (ys i)"
        by blast
      have c: "cs ! i = (fst (Fields ! i), snd (cs ! i))" using keyed_nth[OF k i] by (metis prod.collapse)
      have "js_get v (fst (Fields ! i)) = Inr xi" by (rule js_get_own[OF g xi(1)])
      then show "(case cs ! i of (name, mapper) \<Rightarrow>
              case js_get v name of
                Inl e \<Rightarrow> Inl e
              | Inr x \<Rightarrow>
                 if x = JUndefined then Inr (name, JUndefined)
                 else (case f mapper x of Inl e \<Rightarrow> Inl e | Inr y \<Rightarrow> Inr (name, y))) = Inr (keyed Fields ys ! i)"
        using xi(2,3) i by (subst c) (simp add: keyed_value)
    qed
  qed
  then show ?thesis
    using keyed_assign[OF keyed_keys df np, of ys] by (simp add: traverse_def)
qed

lemma keyed_own:
  assumes df: "distinct (map fst Fields)" and i: "i < length Fields"
  shows "map_of (keyed Fields ys) (fst (Fields ! i)) = Some (ys i)"
  using keyed_lookup[OF keyed_keys df i, of ys] i by (simp add: keyed_value)

lemma struct_equals_fields:
  assumes es: "own_entries V = Inr es" and d: "distinct (map fst es)" and df: "distinct (map fst Fields)"
    and ks: "set (map fst es) = set (map fst Fields)"
    and ek: "map fst ecs = map fst Fields"
    and x: "\<forall>i<length Fields. \<exists>x. map_of es (fst (Fields ! i)) = Some x \<and> x \<noteq> JUndefined \<and>
              snd (ecs ! i) (ys i) x = Inr True"
  shows "struct_equals ecs (JObj (keyed Fields ys)) V = Inr True"
proof -
  have "length (map fst es) = card (set (map fst es))" by (rule distinct_card[OF d, symmetric])
  also have "\<dots> = card (set (map fst Fields))" by (simp only: ks)
  also have "\<dots> = length (map fst Fields)" by (rule distinct_card[OF df])
  finally have len: "length es = length Fields" by simp
  have ka: "js_keys (JObj (keyed Fields ys)) = Inr (map fst Fields)"
    by (simp add: js_keys_def own_entries_def keyed_keys)
  have kb: "js_keys V = Inr (map fst es)" using es by (simp add: js_keys_def)
  have body: "(case js_get (JObj (keyed Fields ys)) aKey of Inl e \<Rightarrow> Inl e | Inr aValue \<Rightarrow>
            case js_get V aKey of Inl e \<Rightarrow> Inl e | Inr bValue \<Rightarrow>
              if aValue = JUndefined \<and> bValue = JUndefined then Inr False
              else (case map_of ecs aKey of
                      None \<Rightarrow> if aKey \<in> set object_prototype then Inl Unmodelled else Inl TypeError
                    | Some isEq \<Rightarrow> isEq aValue bValue)) = Inr True"
    if "aKey \<in> set (map fst Fields)" for aKey
  proof -
    from that obtain i where i: "i < length Fields" and k: "aKey = fst (Fields ! i)"
      by (auto simp: in_set_conv_nth)
    from x i obtain xi where xi: "map_of es (fst (Fields ! i)) = Some xi" "xi \<noteq> JUndefined"
      "snd (ecs ! i) (ys i) xi = Inr True" by blast
    have 1: "js_get (JObj (keyed Fields ys)) aKey = Inr (ys i)"
      unfolding k by (rule js_get_own[OF _ keyed_own[OF df i]]) (simp add: own_entries_def)
    have 2: "js_get V aKey = Inr xi" unfolding k by (rule js_get_own[OF es xi(1)])
    have 3: "map_of ecs aKey = Some (snd (ecs ! i))" unfolding k by (rule keyed_lookup[OF ek df i])
    show ?thesis using xi(2,3) by (simp add: 1 2 3)
  qed
  show ?thesis
    unfolding struct_equals_def ka kb using len body by (simp add: loop_all_True_iff)
qed

lemma struct_case:
  assumes u: "undecorated S = StructShape nm Fields" and es: "own_entries V = Inr es"
    and d: "distinct (map fst es)" and df: "distinct (map fst Fields)"
    and ks: "set (map fst es) = set (map fst Fields)" and np: "''__proto__'' \<notin> fst ` set Fields"
    and ih: "\<forall>f \<in> set Fields. \<exists>x. map_of es (fst f) = Some x \<and> x \<noteq> JUndefined \<and>
               (accepts (snd f) x \<longrightarrow> supported h va False (snd f) \<longrightarrow>
                round_trips (Mapper_of h va (snd f)) (snd f) x \<and>
                round_trips (Json_mapper h False (snd f)) (snd f) x)"
    and wu: "\<forall>f \<in> set Fields. \<forall>x m. map_of es (fst f) = Some x \<longrightarrow> Mapper_of h va (snd f) = Inr m \<longrightarrow>
               m_write m x \<noteq> Inr JUndefined"
    and con: "\<forall>r. map fst r = map fst Fields \<longrightarrow> construct h (StructShape nm Fields) (JObj r) = Inr (JObj r)"
    and ta: "attr_transparent h va S V" and tj: "json_transparent h vj S V"
    and acc: "accepts S V" and sup: "supported h va vj S"
  shows "round_trips (Mapper_of h va S) S V \<and> round_trips (Json_mapper h vj S) S V"
proof -
  have no: "\<not> isOptional S" using isOptional_union[of S] u by auto
  from supported_D[OF sup] obtain eq ma mj where
    eq: "Equals_of S = Inr eq" and ma: "Mapper_of h va S = Inr ma" and mj: "Json_mapper h vj S = Inr mj"
    by blast
  from eq obtain ecs eflds where
    ecs: "sequenceE (map (\<lambda>(name, member). case Equals_of member of Inl e \<Rightarrow> Inl e | Inr c \<Rightarrow> Inr (name, c)) Fields) = Inr ecs"
    and e1: "reduce_spread1 ecs = Inr eflds" and eq': "eq = struct_equals eflds"
    using Equals_of_undecorated[of S] u by (auto split: sum.splits)
  note ef = sequenceE_fields[OF ecs]
  have eflds: "eflds = ecs"
    using e1 keyed_spread[OF conjunct1[OF ef] df] by (auto simp: reduce_spread1_def split: if_splits)
  from Mapper_of_resolves[OF ma] obtain a0 where a0: "resolveShape h va S = Inr a0" by blast
  then obtain acs where
    acs: "sequenceE (map (\<lambda>(name, m). case Mapper_of h va m of Inl e \<Rightarrow> Inl e | Inr c \<Rightarrow> Inr (name, c)) Fields) = Inr acs"
    and a0': "a0 = struct_mapper h (StructShape nm Fields) (reduce_spread acs)"
    using resolveShape_undecorated[of h va S] u by (auto split: sum.splits)
  note af = sequenceE_fields[OF acs]
  have a0'': "a0 = struct_mapper h (StructShape nm Fields) acs"
    using a0' keyed_spread[OF conjunct1[OF af] df] by (simp add: reduce_spread_def)
  from Json_mapper_visits[OF mj] obtain j0 where j0: "Json_visit h S = Inr j0" by blast
  then obtain jcs where
    jcs: "sequenceE (map (\<lambda>(name, member). case Json_mapper h False member of Inl e \<Rightarrow> Inl e | Inr c \<Rightarrow> Inr (name, c)) Fields) = Inr jcs"
    and j0': "j0 = json_struct_mapper h (StructShape nm Fields) (reduce_spread jcs)"
    using Json_visit_undecorated[of h S] u by (auto split: sum.splits)
  note jf = sequenceE_fields[OF jcs]
  have j0'': "j0 = json_struct_mapper h (StructShape nm Fields) jcs"
    using j0' keyed_spread[OF conjunct1[OF jf] df] by (simp add: reduce_spread_def)
  from accepts_D[OF acc] obtain isInstance where
    i: "IsInstance_of S = Inr isInstance" and t: "isInstance V = Inr True" by blast
  from i obtain ics iflds where
    ics: "sequenceE (map (\<lambda>(name, v). case IsInstance_of v of Inl e \<Rightarrow> Inl e | Inr c \<Rightarrow> Inr (name, c)) Fields) = Inr ics"
    and i1: "reduce_spread1 ics = Inr iflds" and i': "isInstance = struct_is_instance iflds"
    using IsInstance_of_undecorated[of S] u by (auto split: sum.splits)
  note isf = sequenceE_fields[OF ics]
  have iflds: "iflds = ics"
    using i1 keyed_spread[OF conjunct1[OF isf] df] by (auto simp: reduce_spread1_def split: if_splits)
  have obj: "js_typeof V = ''object''" using t by (auto simp: i' struct_is_instance_def split: if_splits)
  have chk: "\<forall>p \<in> set ics. (case p of (fieldName, isField) \<Rightarrow>
                case js_get V fieldName of Inl e \<Rightarrow> Inl e | Inr v \<Rightarrow> isField v) = Inr True"
    using t obj by (simp add: i' iflds struct_is_instance_def loop_all_True_iff)
  have field: "\<exists>p. map_of es (fst (Fields ! i)) = Some (fst p) \<and> fst p \<noteq> JUndefined \<and>
      (\<exists>wa. m_write (snd (acs ! i)) (fst p) = Inr wa \<and> wa \<noteq> JUndefined \<and>
            m_read (snd (acs ! i)) wa = Inr (fst (snd p))) \<and>
      snd (ecs ! i) (fst (snd p)) (fst p) = Inr True \<and>
      (\<exists>wj. m_write (snd (jcs ! i)) (fst p) = Inr wj \<and>
            m_read (snd (jcs ! i)) wj = Inr (snd (snd p))) \<and>
      snd (ecs ! i) (snd (snd p)) (fst p) = Inr True"
    if il: "i < length Fields" for i
  proof -
    let ?f = "Fields ! i"
    have mem: "?f \<in> set Fields" using il by simp
    from ih mem obtain x where x: "map_of es (fst ?f) = Some x" "x \<noteq> JUndefined"
      and rt: "accepts (snd ?f) x \<longrightarrow> supported h va False (snd ?f) \<longrightarrow>
                round_trips (Mapper_of h va (snd ?f)) (snd ?f) x \<and>
                round_trips (Json_mapper h False (snd ?f)) (snd ?f) x" by blast
    have ei: "Equals_of (snd ?f) = Inr (snd (ecs ! i))" using ef il by blast
    have ai: "Mapper_of h va (snd ?f) = Inr (snd (acs ! i))" using af il by blast
    have ji: "Json_mapper h False (snd ?f) = Inr (snd (jcs ! i))" using jf il by blast
    have ii: "IsInstance_of (snd ?f) = Inr (snd (ics ! i))" using isf il by blast
    have ki: "i < length ics" "fst (ics ! i) = fst ?f" using keyed_nth[OF conjunct1[OF isf] il] by simp_all
    have "ics ! i \<in> set ics" using ki(1) by simp
    with chk have "(case ics ! i of (fieldName, isField) \<Rightarrow>
                case js_get V fieldName of Inl e \<Rightarrow> Inl e | Inr v \<Rightarrow> isField v) = Inr True" by blast
    moreover have "ics ! i = (fst ?f, snd (ics ! i))" using ki(2) by (metis prod.collapse)
    moreover have "js_get V (fst ?f) = Inr x" by (rule js_get_own[OF es x(1)])
    ultimately have "snd (ics ! i) x = Inr True" by (metis (no_types, lifting) case_prod_conv sum.case(2))
    then have "accepts (snd ?f) x" by (rule accepts_I[OF ii])
    moreover have "supported h va False (snd ?f)" by (rule supported_I[OF ei ai ji])
    ultimately have r: "round_trips (Inr (snd (acs ! i))) (snd ?f) x" "round_trips (Inr (snd (jcs ! i))) (snd ?f) x"
      using rt ai ji by simp_all
    from round_trips_D[OF r(1)] ei obtain wa xa where
      a: "m_write (snd (acs ! i)) x = Inr wa" "m_read (snd (acs ! i)) wa = Inr xa" "snd (ecs ! i) xa x = Inr True"
      by auto
    from round_trips_D[OF r(2)] ei obtain wj xj where
      j: "m_write (snd (jcs ! i)) x = Inr wj" "m_read (snd (jcs ! i)) wj = Inr xj" "snd (ecs ! i) xj x = Inr True"
      by auto
    have "wa \<noteq> JUndefined" using wu mem x(1) ai a(1) by fastforce
    then show ?thesis using x a j by (intro exI[of _ "(x, xa, xj)"]) simp
  qed
  then have "\<forall>i. \<exists>p. i < length Fields \<longrightarrow> (map_of es (fst (Fields ! i)) = Some (fst p) \<and> fst p \<noteq> JUndefined \<and>
      (\<exists>wa. m_write (snd (acs ! i)) (fst p) = Inr wa \<and> wa \<noteq> JUndefined \<and>
            m_read (snd (acs ! i)) wa = Inr (fst (snd p))) \<and>
      snd (ecs ! i) (fst (snd p)) (fst p) = Inr True \<and>
      (\<exists>wj. m_write (snd (jcs ! i)) (fst p) = Inr wj \<and>
            m_read (snd (jcs ! i)) wj = Inr (snd (snd p))) \<and>
      snd (ecs ! i) (snd (snd p)) (fst p) = Inr True)" by blast
  from choice[OF this] obtain pf where pf: "\<forall>i<length Fields.
      map_of es (fst (Fields ! i)) = Some (fst (pf i)) \<and> fst (pf i) \<noteq> JUndefined \<and>
      (\<exists>wa. m_write (snd (acs ! i)) (fst (pf i)) = Inr wa \<and> wa \<noteq> JUndefined \<and>
            m_read (snd (acs ! i)) wa = Inr (fst (snd (pf i)))) \<and>
      snd (ecs ! i) (fst (snd (pf i))) (fst (pf i)) = Inr True \<and>
      (\<exists>wj. m_write (snd (jcs ! i)) (fst (pf i)) = Inr wj \<and>
            m_read (snd (jcs ! i)) wj = Inr (snd (snd (pf i)))) \<and>
      snd (ecs ! i) (snd (snd (pf i))) (fst (pf i)) = Inr True" by blast
  then have "\<forall>i. \<exists>q. i < length Fields \<longrightarrow>
      (m_write (snd (acs ! i)) (fst (pf i)) = Inr (fst q) \<and> fst q \<noteq> JUndefined \<and>
       m_read (snd (acs ! i)) (fst q) = Inr (fst (snd (pf i))) \<and>
       m_write (snd (jcs ! i)) (fst (pf i)) = Inr (snd q) \<and>
       m_read (snd (jcs ! i)) (snd q) = Inr (snd (snd (pf i))))" by (metis fst_conv snd_conv)
  from choice[OF this] obtain wf where wf: "\<forall>i<length Fields.
       m_write (snd (acs ! i)) (fst (pf i)) = Inr (fst (wf i)) \<and> fst (wf i) \<noteq> JUndefined \<and>
       m_read (snd (acs ! i)) (fst (wf i)) = Inr (fst (snd (pf i))) \<and>
       m_write (snd (jcs ! i)) (fst (pf i)) = Inr (snd (wf i)) \<and>
       m_read (snd (jcs ! i)) (snd (wf i)) = Inr (snd (snd (pf i)))" by blast
  let ?wa = "keyed Fields (\<lambda>i. fst (wf i))" and ?xa = "keyed Fields (\<lambda>i. fst (snd (pf i)))"
  let ?wj = "keyed Fields (\<lambda>i. snd (wf i))" and ?xj = "keyed Fields (\<lambda>i. snd (snd (pf i)))"
  have own: "own_entries (JObj r) = Inr r" for r by (simp add: own_entries_def)
  have t1: "traverse m_write acs V = Inr (JObj ?wa)"
    by (rule fields_traverse[OF conjunct1[OF af] df np es]) (use pf wf in blast)
  have t2: "traverse m_read acs (JObj ?wa) = Inr (JObj ?xa)"
    by (rule fields_traverse[OF conjunct1[OF af] df np own]) (use wf keyed_own[OF df] in auto)
  have c: "construct h (StructShape nm Fields) (JObj (keyed Fields ys)) = Inr (JObj (keyed Fields ys))" for ys
    using con keyed_keys[of Fields ys] by blast
  have a1: "m_write a0 V = Inr (JObj [(''M'', JObj ?wa)])" using t1 by (simp add: a0'' struct_mapper_def)
  have a2: "m_read a0 (JObj [(''M'', JObj ?wa)]) = Inr (JObj ?xa)"
    using t2 c by (simp add: a0'' struct_mapper_def assertHasKey_def js_get_def own_entries_def)
  have a3: "eq (JObj ?xa) V = Inr True"
    unfolding eq' eflds by (rule struct_equals_fields[OF es d df ks conjunct1[OF ef]]) (use pf in blast)
  have m1: "mapE (\<lambda>(name, codec). case js_get V name of Inl e \<Rightarrow> Inl e | Inr x \<Rightarrow>
                 case m_write codec x of Inl e \<Rightarrow> Inl e | Inr y \<Rightarrow> Inr (name, y)) jcs = Inr ?wj"
    by (rule fields_mapE[OF conjunct1[OF jf] es]) (use pf wf in blast)
  have m2: "mapE (\<lambda>(name, codec). case js_get (JObj ?wj) name of Inl e \<Rightarrow> Inl e | Inr x \<Rightarrow>
                 case m_read codec x of Inl e \<Rightarrow> Inl e | Inr y \<Rightarrow> Inr (name, y)) jcs = Inr ?xj"
    by (rule fields_mapE[OF conjunct1[OF jf] own]) (use wf keyed_own[OF df] in auto)
  have as: "assign_all [] (keyed Fields ys) = Inr (keyed Fields ys)" for ys :: "nat \<Rightarrow> jsval"
    by (rule keyed_assign[OF keyed_keys df np])
  have j1: "m_write j0 V = Inr (JObj ?wj)" using m1 as by (simp add: j0'' json_struct_mapper_def)
  have j2: "m_read j0 (JObj ?wj) = Inr (JObj ?xj)"
    using m2 as c by (simp add: j0'' json_struct_mapper_def js_typeof_def)
  have j3: "eq (JObj ?xj) V = Inr True"
    unfolding eq' eflds by (rule struct_equals_fields[OF es d df ks conjunct1[OF ef]]) (use pf in blast)
  show ?thesis by (rule finish_round_trips[OF no sup ta tj eq a0 j0 a1 a2 a3 j1 j2 j3])
qed

lemma literal_case:
  assumes u: "undecorated S = LiteralShape T Val"
    and ih: "accepts T V \<longrightarrow> supported h True False T \<longrightarrow>
               round_trips (Mapper_of h True T) T V \<and> round_trips (Json_mapper h False T) T V"
    and lr: "literal_reread h T Val V"
    and ta: "attr_transparent h va S V" and tj: "json_transparent h vj S V"
    and acc: "accepts S V" and sup: "supported h va vj S"
  shows "round_trips (Mapper_of h va S) S V \<and> round_trips (Json_mapper h vj S) S V"
proof -
  have no: "\<not> isOptional S" using isOptional_union[of S] u by auto
  from supported_D[OF sup] obtain eq ma mj where
    eq: "Equals_of S = Inr eq" and ma: "Mapper_of h va S = Inr ma" and mj: "Json_mapper h vj S = Inr mj"
    by blast
  have eqT: "Equals_of T = Inr eq" using eq Equals_of_undecorated[of S] u by simp
  from Mapper_of_resolves[OF ma] obtain a0 where a0: "resolveShape h va S = Inr a0" by blast
  then have maT: "Mapper_of h True T = Inr a0" using resolveShape_undecorated[of h va S] u by simp
  from Json_mapper_visits[OF mj] obtain j0 where j0: "Json_visit h S = Inr j0" by blast
  then obtain valueMapper literalValue where vm: "Json_visit h T = Inr valueMapper"
    and lv: "m_write valueMapper Val = Inr literalValue"
    and j0': "j0 = json_literal_mapper valueMapper eq Val literalValue"
    using Json_visit_undecorated[of h S] u eqT by (auto split: sum.splits)
  have supT: "supported h True False T"
    by (rule supported_I[OF eqT maT Json_mapper_unvalidated[OF vm]])
  from accepts_D[OF acc] obtain isInstance where
    i: "IsInstance_of S = Inr isInstance" and t: "isInstance V = Inr True" by blast
  from i obtain isType where isType: "IsInstance_of T = Inr isType"
    and i': "isInstance = literal_is_instance isType eq Val"
    using IsInstance_of_undecorated[of S] u eqT by (auto split: sum.splits)
  have "isType V = Inr True" using t by (auto simp: i' literal_is_instance_def split: sum.splits if_splits)
  then have "accepts T V" by (rule accepts_I[OF isType])
  with ih supT maT have "round_trips (Inr a0) T V" by simp
  from round_trips_D[OF this] eqT obtain wa xa where
    a: "m_write a0 V = Inr wa" "m_read a0 wa = Inr xa" "eq xa V = Inr True" by auto
  from lr vm eqT lv obtain v where
    l: "m_read valueMapper literalValue = Inr v" "eq literalValue Val = Inr True" "eq Val V = Inr True"
    by (auto simp: literal_reread_def split: sum.splits)
  have j1: "m_write j0 V = Inr literalValue" by (simp add: j0' json_literal_mapper_def)
  have j2: "m_read j0 literalValue = Inr Val" using l by (simp add: j0' json_literal_mapper_def)
  show ?thesis by (rule finish_round_trips[OF no sup ta tj eq a0 j0 a j1 j2 l(3)])
qed

subsection \<open>Unions\<close>

lemma sequenceE_pairs:
  assumes "sequenceE (map (\<lambda>item. case IsInstance_of item of Inl e \<Rightarrow> Inl e | Inr isType \<Rightarrow>
                                    case c item of Inl e \<Rightarrow> Inl e | Inr x \<Rightarrow> Inr (isType, x)) Items) = Inr ps"
  shows "length ps = length Items \<and>
         (\<forall>k<length Items. IsInstance_of (Items ! k) = Inr (fst (ps ! k)) \<and> c (Items ! k) = Inr (snd (ps ! k)))"
proof -
  let ?f = "\<lambda>item. case IsInstance_of item of Inl e \<Rightarrow> Inl e | Inr isType \<Rightarrow>
                     case c item of Inl e \<Rightarrow> Inl e | Inr x \<Rightarrow> Inr (isType, x)"
  note sq = sequenceE_map_Inr[OF assms]
  have "IsInstance_of (Items ! k) = Inr (fst (ps ! k)) \<and> c (Items ! k) = Inr (snd (ps ! k))"
    if "k < length Items" for k
  proof -
    have "?f (Items ! k) = Inr (ps ! k)" using sq that by blast
    then have "\<exists>t x. IsInstance_of (Items ! k) = Inr t \<and> c (Items ! k) = Inr x \<and> ps ! k = (t, x)"
      by (cases "IsInstance_of (Items ! k)"; cases "c (Items ! k)") auto
    then show ?thesis by auto
  qed
  with sq show ?thesis by blast
qed

lemma union_write_at:
  "i < length ps \<Longrightarrow> \<forall>j<i. fst (ps ! j) v = Inr False \<Longrightarrow> fst (ps ! i) v = Inr True \<Longrightarrow>
   union_write ps v = m_write (snd (ps ! i)) v"
proof (induction ps arbitrary: i)
  case Nil
  then show ?case by simp
next
  case (Cons p ps)
  obtain isType mapper where p: "p = (isType, mapper)" by (cases p)
  show ?case
  proof (cases i)
    case 0
    then show ?thesis using Cons.prems p by simp
  next
    case (Suc k)
    have "isType v = Inr False" using Cons.prems(2) Suc p by (auto dest: spec[where x = 0])
    moreover have "union_write ps v = m_write (snd (ps ! k)) v"
      using Cons.prems Suc by (intro Cons.IH) auto
    ultimately show ?thesis using Suc p by simp
  qed
qed

lemma json_union_write_at:
  "i < length ps \<Longrightarrow> \<forall>j<i. fst (ps ! j) v = Inr False \<Longrightarrow> fst (ps ! i) v = Inr True \<Longrightarrow>
   json_union_write ps v = m_write (snd (ps ! i)) v"
proof (induction ps arbitrary: i)
  case Nil
  then show ?case by simp
next
  case (Cons p ps)
  obtain isType mapper where p: "p = (isType, mapper)" by (cases p)
  show ?case
  proof (cases i)
    case 0
    then show ?thesis using Cons.prems p by simp
  next
    case (Suc k)
    have "isType v = Inr False" using Cons.prems(2) Suc p by (auto dest: spec[where x = 0])
    moreover have "json_union_write ps v = m_write (snd (ps ! k)) v"
      using Cons.prems Suc by (intro Cons.IH) auto
    ultimately show ?thesis using Suc p by simp
  qed
qed

lemma json_union_read_first:
  "i < length ms \<Longrightarrow> m_read (ms ! i) v = Inr r \<Longrightarrow> \<forall>j<i. \<exists>e. m_read (ms ! j) v = Inl e \<Longrightarrow>
   json_union_read ms v = Inr r"
proof (induction ms arbitrary: i)
  case Nil
  then show ?case by simp
next
  case (Cons m ms)
  show ?case
  proof (cases i)
    case 0
    then show ?thesis using Cons.prems by simp
  next
    case (Suc k)
    have "\<exists>e. m_read m v = Inl e" using Cons.prems(3) Suc by (auto dest: spec[where x = 0])
    moreover have "json_union_read ms v = Inr r"
      using Cons.prems Suc by (intro Cons.IH[of k]) auto
    ultimately show ?thesis by auto
  qed
qed

lemma union_eq_loop_at:
  "i < length ps \<Longrightarrow> \<forall>j<i. \<exists>ok. fst (ps ! j) a = Inr ok \<Longrightarrow> \<forall>j<i. fst (ps ! j) b = Inr False \<Longrightarrow>
   fst (ps ! i) a = Inr True \<Longrightarrow> fst (ps ! i) b = Inr True \<Longrightarrow>
   union_eq_loop ps a b = snd (ps ! i) a b"
proof (induction ps arbitrary: i)
  case Nil
  then show ?case by simp
next
  case (Cons p ps)
  obtain isType isEqual where p: "p = (isType, isEqual)" by (cases p)
  show ?case
  proof (cases i)
    case 0
    then show ?thesis using Cons.prems p by simp
  next
    case (Suc k)
    obtain ok where "isType a = Inr ok" using Cons.prems(2) Suc p by (auto dest: spec[where x = 0])
    moreover have "isType b = Inr False" using Cons.prems(3) Suc p by (auto dest: spec[where x = 0])
    moreover have "union_eq_loop ps a b = snd (ps ! k) a b"
      using Cons.prems Suc by (intro Cons.IH) auto
    ultimately show ?thesis using Suc p by simp
  qed
qed

lemma absent_case:
  assumes u: "undecorated S = UnionShape Items" and opt: "isOptional S"
    and V: "V = JUndefined \<or> V = JNull"
    and ta: "attr_transparent h va S V" and sup: "supported h va vj S"
  shows "round_trips (Mapper_of h va S) S V \<and> round_trips (Json_mapper h vj S) S V"
proof -
  from supported_D[OF sup] obtain eq ma mj where
    eq: "Equals_of S = Inr eq" and ma: "Mapper_of h va S = Inr ma" and mj: "Json_mapper h vj S = Inr mj"
    by blast
  from eq obtain eis where eq': "eq = union_equals eis"
    using Equals_of_undecorated[of S] u by (auto split: sum.splits)
  have e: "eq V V = Inr True" using V by (auto simp: eq' union_equals_def js_strict_eq_def)
  from Mapper_of_resolves[OF ma] obtain a0 where a0: "resolveShape h va S = Inr a0" by blast
  have p: "attr_plain h va S = Inr (optional_mapper a0)" using a0 opt by (simp add: attr_plain_def)
  have "m_write (optional_mapper a0) V = Inr V" "m_read (optional_mapper a0) V = Inr V"
    using V by (auto simp: optional_mapper_def)
  from attr_wrap[OF ma ta p this] have "m_write ma V = Inr V \<and> m_read ma V = Inr V" .
  then have 1: "round_trips (Mapper_of h va S) S V" using ma eq e by (auto intro: round_trips_I)
  obtain mv where "mj = optional_mapper mv"
    using mj opt by (auto simp: Json_mapper.simps[of h vj S] split: sum.splits)
  then have "m_write mj V = Inr V \<and> m_read mj V = Inr V" using V by (auto simp: optional_mapper_def)
  then have 2: "round_trips (Json_mapper h vj S) S V" using mj eq e by (auto intro: round_trips_I)
  from 1 2 show ?thesis by blast
qed

lemma variant_case:
  assumes u: "undecorated S = UnionShape Items" and i: "i < length Items"
    and ai: "accepts (Items ! i) V" and before: "\<forall>j<i. instance_check (Items ! j) V = Inr False"
    and nn: "isOptional S \<longrightarrow> V \<noteq> JUndefined \<and> V \<noteq> JNull"
    and ih: "accepts (Items ! i) V \<longrightarrow> supported h True False (Items ! i) \<longrightarrow>
               round_trips (Mapper_of h True (Items ! i)) (Items ! i) V \<and>
               round_trips (Json_mapper h False (Items ! i)) (Items ! i) V"
    and va: "variant_reread (isOptional S) (Mapper_of h True) Items i V"
    and vj: "variant_reread (isOptional S) (Json_mapper h False) Items i V"
    and ta: "attr_transparent h va S V" and tj: "json_transparent h vj S V"
    and sup: "supported h va vj S"
  shows "round_trips (Mapper_of h va S) S V \<and> round_trips (Json_mapper h vj S) S V"
proof -
  from supported_D[OF sup] obtain eq ma mj where
    eq: "Equals_of S = Inr eq" and ma: "Mapper_of h va S = Inr ma" and mj: "Json_mapper h vj S = Inr mj"
    by blast
  from eq obtain eis where
    eis: "sequenceE (map (\<lambda>item. case IsInstance_of item of Inl e \<Rightarrow> Inl e | Inr isType \<Rightarrow>
                                    case Equals_of item of Inl e \<Rightarrow> Inl e | Inr isEqual \<Rightarrow>
                                      Inr (isType, isEqual)) Items) = Inr eis"
    and eq': "eq = union_equals eis"
    using Equals_of_undecorated[of S] u by (auto split: sum.splits)
  note ef = sequenceE_pairs[OF eis]
  from Mapper_of_resolves[OF ma] obtain a0 where a0: "resolveShape h va S = Inr a0" by blast
  then obtain ais where
    ais: "sequenceE (map (\<lambda>item. case IsInstance_of item of Inl e \<Rightarrow> Inl e | Inr isType \<Rightarrow>
                                    case Mapper_of h True item of Inl e \<Rightarrow> Inl e | Inr mapper \<Rightarrow>
                                      Inr (isType, mapper)) Items) = Inr ais"
    and a0': "a0 = union_mapper ais"
    using resolveShape_undecorated[of h va S] u by (auto split: sum.splits)
  note af = sequenceE_pairs[OF ais]
  from Json_mapper_visits[OF mj] obtain j0 where j0: "Json_visit h S = Inr j0" by blast
  then obtain jis where
    jis: "sequenceE (map (\<lambda>item. case IsInstance_of item of Inl e \<Rightarrow> Inl e | Inr isType \<Rightarrow>
                                    case Json_mapper h False item of Inl e \<Rightarrow> Inl e | Inr mapper \<Rightarrow>
                                      Inr (isType, mapper)) Items) = Inr jis"
    and j0': "j0 = json_union_mapper jis"
    using Json_visit_undecorated[of h S] u by (auto split: sum.splits)
  note jf = sequenceE_pairs[OF jis]
  let ?T = "\<lambda>k. fst (eis ! k)"
  have T: "IsInstance_of (Items ! k) = Inr (?T k)" if "k < length Items" for k using ef that by blast
  have Ta: "fst (ais ! k) = ?T k" if "k < length Items" for k using af T[OF that] that by auto
  have Tj: "fst (jis ! k) = ?T k" if "k < length Items" for k using jf T[OF that] that by auto
  have ic: "instance_check (Items ! k) x = ?T k x" if "k < length Items" for k x
    using T[OF that] by (simp add: instance_check_def)
  have Ei: "Equals_of (Items ! i) = Inr (snd (eis ! i))" using ef i by blast
  have Ai: "Mapper_of h True (Items ! i) = Inr (snd (ais ! i))" using af i by blast
  have Ji: "Json_mapper h False (Items ! i) = Inr (snd (jis ! i))" using jf i by blast
  have tV: "?T i V = Inr True" using ai ic[OF i] by (simp add: accepts_def)
  have fV: "\<forall>j<i. ?T j V = Inr False" using before ic i by simp
  have supi: "supported h True False (Items ! i)" by (rule supported_I[OF Ei Ai Ji])
  with ih ai Ai Ji have r: "round_trips (Inr (snd (ais ! i))) (Items ! i) V"
    "round_trips (Inr (snd (jis ! i))) (Items ! i) V" by simp_all
  from round_trips_D[OF r(1)] Ei obtain wa xa where
    a: "m_write (snd (ais ! i)) V = Inr wa" "m_read (snd (ais ! i)) wa = Inr xa" "snd (eis ! i) xa V = Inr True"
    by auto
  from round_trips_D[OF r(2)] Ei obtain wj xj where
    j: "m_write (snd (jis ! i)) V = Inr wj" "m_read (snd (jis ! i)) wj = Inr xj" "snd (eis ! i) xj V = Inr True"
    by auto
  have same: "eq x V = Inr True" if sv: "same_variant Items i V x" and e: "snd (eis ! i) x V = Inr True" for x
  proof (cases "js_strict_eq x V")
    case True
    then show ?thesis by (simp add: eq' union_equals_def)
  next
    case False
    with sv have 1: "?T i x = Inr True"
      and 2: "\<forall>j<i. case instance_check (Items ! j) x of Inl e \<Rightarrow> False | Inr ok \<Rightarrow> True"
      using ic[OF i] by (simp_all add: same_variant_def)
    have "\<forall>j<i. \<exists>ok. ?T j x = Inr ok"
    proof (intro allI impI)
      fix k assume k: "k < i"
      then have kl: "k < length Items" using i by simp
      from 2 k have "case instance_check (Items ! k) x of Inl e \<Rightarrow> False | Inr ok \<Rightarrow> True" by blast
      then have "case ?T k x of Inl e \<Rightarrow> False | Inr ok \<Rightarrow> True" by (simp only: ic[OF kl])
      then show "\<exists>ok. ?T k x = Inr ok" by (cases "?T k x") auto
    qed
    from union_eq_loop_at[OF _ this fV 1 tV] i ef have "union_eq_loop eis x V = snd (eis ! i) x V" by simp
    then show ?thesis using False e by (simp add: eq' union_equals_def)
  qed
  from va Ai a have va': "isOptional S \<longrightarrow> wa \<noteq> JUndefined \<and> wa \<noteq> JNull"
    "\<forall>k<i. case Mapper_of h True (Items ! k) of Inl e \<Rightarrow> True
            | Inr mk \<Rightarrow> (case m_read mk wa of Inl e \<Rightarrow> e \<noteq> Unmodelled | Inr r \<Rightarrow> False)"
    "same_variant Items i V xa"
    by (simp_all add: variant_reread_def)
  from vj Ji j have vj': "isOptional S \<longrightarrow> wj \<noteq> JUndefined \<and> wj \<noteq> JNull"
    "\<forall>k<i. case Json_mapper h False (Items ! k) of Inl e \<Rightarrow> True
            | Inr mk \<Rightarrow> (case m_read mk wj of Inl e \<Rightarrow> e \<noteq> Unmodelled | Inr r \<Rightarrow> False)"
    "same_variant Items i V xj"
    by (simp_all add: variant_reread_def)
  have la: "length ais = length Items" and lj: "length jis = length Items" using af jf by simp_all
  have fa: "\<forall>k<i. \<exists>e. m_read (map snd ais ! k) wa = Inl e"
  proof (intro allI impI)
    fix k assume k: "k < i"
    then have kl: "k < length Items" using i by simp
    have "Mapper_of h True (Items ! k) = Inr (snd (ais ! k))" using af kl by blast
    with va'(2) k have "case m_read (snd (ais ! k)) wa of Inl e \<Rightarrow> e \<noteq> Unmodelled | Inr r \<Rightarrow> False" by fastforce
    then show "\<exists>e. m_read (map snd ais ! k) wa = Inl e"
      using kl la by (cases "m_read (snd (ais ! k)) wa") auto
  qed
  have fj: "\<forall>k<i. \<exists>e. m_read (map snd jis ! k) wj = Inl e"
  proof (intro allI impI)
    fix k assume k: "k < i"
    then have kl: "k < length Items" using i by simp
    have "Json_mapper h False (Items ! k) = Inr (snd (jis ! k))" using jf kl by blast
    with vj'(2) k have "case m_read (snd (jis ! k)) wj of Inl e \<Rightarrow> e \<noteq> Unmodelled | Inr r \<Rightarrow> False" by fastforce
    then show "\<exists>e. m_read (map snd jis ! k) wj = Inl e"
      using kl lj by (cases "m_read (snd (jis ! k)) wj") auto
  qed
  have a1: "m_write a0 V = Inr wa"
    using union_write_at[of i ais V] i la Ta fV tV a(1) by (simp add: a0' union_mapper_def)
  have a2: "m_read a0 wa = Inr xa"
    using union_read_first[of i "map snd ais" wa xa] i la a(2) fa by (simp add: a0' union_mapper_def)
  have j1: "m_write j0 V = Inr wj"
    using json_union_write_at[of i jis V] i lj Tj fV tV j(1) by (simp add: j0' json_union_mapper_def)
  have j2: "m_read j0 wj = Inr xj"
    using json_union_read_first[of i "map snd jis" wj xj] i lj j(2) fj by (simp add: j0' json_union_mapper_def)
  let ?p = "if isOptional S then optional_mapper a0 else a0"
  have p: "attr_plain h va S = Inr ?p" using a0 by (simp add: attr_plain_def)
  have pw: "m_write ?p V = Inr wa" using a1 nn by (simp add: optional_mapper_def)
  have pr: "m_read ?p wa = Inr xa" using a2 va'(1) by (simp add: optional_mapper_def)
  from attr_wrap[OF ma ta p pw pr] have "m_write ma V = Inr wa \<and> m_read ma wa = Inr xa" .
  then have 1: "round_trips (Mapper_of h va S) S V"
    using ma eq same[OF va'(3) a(3)] by (auto intro: round_trips_I)
  from json_wrap[OF mj tj j0 j1 j2] nn vj'(1) have "m_write mj V = Inr wj \<and> m_read mj wj = Inr xj" by simp
  then have 2: "round_trips (Json_mapper h vj S) S V"
    using mj eq same[OF vj'(3) j(3)] by (auto intro: round_trips_I)
  from 1 2 show ?thesis by blast
qed

lemma example_host_lets_through: "lets_through example_host S m V"
  by (simp add: lets_through_def example_host_def split: sum.splits)

subsection \<open>The round trip of a stable value\<close>

text \<open>
  C1, amended.  For a shape that the equality and both codecs support, and a
  value that the instance check of the shape accepts and that is stable for
  the shape (\<open>stable\<close>), writing the value and reading back what was written
  gives a value that the equality of the shape relates to the original: with
  the attribute codec compiled with or without validation, and with the JSON
  codec compiled with or without validation.
\<close>

theorem round_trip_stable:
  "stable h va vj S V \<Longrightarrow> accepts S V \<Longrightarrow> supported h va vj S \<Longrightarrow>
   round_trips (Mapper_of h va S) S V \<and> round_trips (Json_mapper h vj S) S V"
proof (induction rule: stable.induct)
  case scalar
  from scalar.hyps(1) show ?case
    using string_case[OF _ scalar.hyps(2,3) scalar.prems] enum_case[OF _ scalar.hyps(2,3) scalar.prems]
      bool_case[OF _ scalar.hyps(2,3) scalar.prems]
    by blast
next
  case number
  show ?case by (rule number_case[OF number.hyps number.prems(2)])
next
  case timestamp
  show ?case by (rule timestamp_case[OF timestamp.hyps timestamp.prems(2)])
next
  case binary
  show ?case by (rule binary_case[OF binary.hyps binary.prems(2)])
next
  case any
  show ?case by (rule any_case[OF any.hyps any.prems(2)])
next
  case set
  show ?case by (rule set_case[OF set.hyps set.prems(1)])
next
  case array
  show ?case
    by (rule array_case[OF array.hyps(1,2) _ array.hyps(3,4) array.prems]) (use array.IH in blast)
next
  case map
  show ?case
    by (rule map_case[OF map.hyps(1,2,3,4) _ map.hyps(5,6) map.prems]) (use map.IH in blast)
next
  case struct
  show ?case
    by (rule struct_case[OF struct.hyps(1,2,3,4,5,6) _ struct.hyps(7,8,9,10) struct.prems])
       (use struct.IH in blast)
next
  case literal
  show ?case
    by (rule literal_case[OF literal.hyps(1) _ literal.hyps(3,4,5) literal.prems])
       (use literal.IH in blast)
next
  case absent
  show ?case by (rule absent_case[OF absent.hyps absent.prems(2)])
next
  case variant
  show ?case
    by (rule variant_case[OF variant.hyps(1,2,3,4,5) _ variant.hyps(7,8,9,10) variant.prems(2)])
       (use variant.IH in blast)
qed

theorem round_trip_stable_witness:
  "stable example_host True True
     (StructShape ''T'' [(''id'', StringShape), (''tags'', ArrayShape StringShape),
                         (''nick'', UnionShape [StringShape, NothingShape]),
                         (''kind'', LiteralShape StringShape (JStr ''user'')),
                         (''flags'', MapShape BoolShape),
                         (''note'', UnionShape [StringShape, NothingShape])])
     (JObj [(''id'', JStr ''a''), (''tags'', JArr [JStr ''x'']), (''nick'', JStr ''n''),
            (''kind'', JStr ''user''), (''flags'', JObj [(''on'', JBool True)]), (''note'', JNull)]) \<and>
   accepts
     (StructShape ''T'' [(''id'', StringShape), (''tags'', ArrayShape StringShape),
                         (''nick'', UnionShape [StringShape, NothingShape]),
                         (''kind'', LiteralShape StringShape (JStr ''user'')),
                         (''flags'', MapShape BoolShape),
                         (''note'', UnionShape [StringShape, NothingShape])])
     (JObj [(''id'', JStr ''a''), (''tags'', JArr [JStr ''x'']), (''nick'', JStr ''n''),
            (''kind'', JStr ''user''), (''flags'', JObj [(''on'', JBool True)]), (''note'', JNull)]) \<and>
   supported example_host True True
     (StructShape ''T'' [(''id'', StringShape), (''tags'', ArrayShape StringShape),
                         (''nick'', UnionShape [StringShape, NothingShape]),
                         (''kind'', LiteralShape StringShape (JStr ''user'')),
                         (''flags'', MapShape BoolShape),
                         (''note'', UnionShape [StringShape, NothingShape])]) \<and>
   round_trips
     (Mapper_of example_host True
       (StructShape ''T'' [(''id'', StringShape), (''tags'', ArrayShape StringShape),
                           (''nick'', UnionShape [StringShape, NothingShape]),
                           (''kind'', LiteralShape StringShape (JStr ''user'')),
                           (''flags'', MapShape BoolShape),
                           (''note'', UnionShape [StringShape, NothingShape])]))
     (StructShape ''T'' [(''id'', StringShape), (''tags'', ArrayShape StringShape),
                         (''nick'', UnionShape [StringShape, NothingShape]),
                         (''kind'', LiteralShape StringShape (JStr ''user'')),
                         (''flags'', MapShape BoolShape),
                         (''note'', UnionShape [StringShape, NothingShape])])
     (JObj [(''id'', JStr ''a''), (''tags'', JArr [JStr ''x'']), (''nick'', JStr ''n''),
            (''kind'', JStr ''user''), (''flags'', JObj [(''on'', JBool True)]), (''note'', JNull)]) \<and>
   round_trips
     (Json_mapper example_host True
       (StructShape ''T'' [(''id'', StringShape), (''tags'', ArrayShape StringShape),
                           (''nick'', UnionShape [StringShape, NothingShape]),
                           (''kind'', LiteralShape StringShape (JStr ''user'')),
                           (''flags'', MapShape BoolShape),
                           (''note'', UnionShape [StringShape, NothingShape])]))
     (StructShape ''T'' [(''id'', StringShape), (''tags'', ArrayShape StringShape),
                         (''nick'', UnionShape [StringShape, NothingShape]),
                         (''kind'', LiteralShape StringShape (JStr ''user'')),
                         (''flags'', MapShape BoolShape),
                         (''note'', UnionShape [StringShape, NothingShape])])
     (JObj [(''id'', JStr ''a''), (''tags'', JArr [JStr ''x'']), (''nick'', JStr ''n''),
            (''kind'', JStr ''user''), (''flags'', JObj [(''on'', JBool True)]), (''note'', JNull)])"
proof -
  let ?U = "UnionShape [StringShape, NothingShape]"
  let ?A = "ArrayShape StringShape"
  let ?L = "LiteralShape StringShape (JStr ''user'')"
  let ?M = "MapShape BoolShape"
  let ?F = "[(''id'', StringShape), (''tags'', ?A), (''nick'', ?U), (''kind'', ?L), (''flags'', ?M), (''note'', ?U)]"
  let ?S = "StructShape ''T'' ?F"
  let ?es = "[(''id'', JStr ''a''), (''tags'', JArr [JStr ''x'']), (''nick'', JStr ''n''),
              (''kind'', JStr ''user''), (''flags'', JObj [(''on'', JBool True)]), (''note'', JNull)]"
  have vm: "ValidatingMapper_of example_host = (\<lambda>shape m. Inr m)"
    and cn: "construct example_host = (\<lambda>shape v. Inr v)"
    by (simp_all add: example_host_def)
  note mp = Mapper_of.simps[of _ _ StringShape] Mapper_of.simps[of _ _ NothingShape]
    Mapper_of.simps[of _ _ ?A] Mapper_of.simps[of _ _ ?U] Mapper_of.simps[of _ _ ?S]
    Mapper_of.simps[of _ _ ?L] Mapper_of.simps[of _ _ ?M] Mapper_of.simps[of _ _ BoolShape]
  note js = Json_mapper.simps[of _ _ StringShape] Json_mapper.simps[of _ _ NothingShape]
    Json_mapper.simps[of _ _ ?A] Json_mapper.simps[of _ _ ?U] Json_mapper.simps[of _ _ ?S]
    Json_mapper.simps[of _ _ ?L] Json_mapper.simps[of _ _ ?M] Json_mapper.simps[of _ _ BoolShape]
  note tr = attr_transparent_def json_transparent_def attr_plain_def example_host_lets_through
  note ev = accepts_def instance_check_def js_typeof_def
  have s1: "stable example_host va False StringShape (JStr x)" for va x
    by (rule stable.scalar[where Values = "[]"]) (simp_all add: tr)
  have s2: "stable example_host True False ?A (JArr [JStr ''x''])"
    by (rule stable.array[where xs = "[JStr ''x'']" and Items = StringShape])
       (simp_all add: s1 tr mp vm)
  have s3: "stable example_host True False ?U (JStr ''n'')"
    by (rule stable.variant[where i = 0 and Items = "[StringShape, NothingShape]"])
       (simp_all add: s1 tr mp js vm ev variant_reread_def same_variant_def js_strict_eq_def
          string_mapper_def json_typed_mapper_def assertIsType_def assertHasKey_def js_get_def
          own_entries_def)
  have s4: "stable example_host True False ?L (JStr ''user'')"
    by (rule stable.literal[where T = StringShape and Val = "JStr ''user''"])
       (simp_all add: s1 tr mp vm literal_reread_def json_typed_mapper_def js_typeof_def js_strict_eq_def)
  have s5: "stable example_host va False BoolShape (JBool b)" for va b
    by (rule stable.scalar[where Values = "[]"]) (simp_all add: tr)
  have s6: "stable example_host True False ?M (JObj [(''on'', JBool True)])"
    by (rule stable.map[where es = "[(''on'', JBool True)]" and Items = BoolShape])
       (simp_all add: s5 tr mp vm own_entries_def)
  have s7: "stable example_host True False ?U JNull"
    by (rule stable.absent[where Items = "[StringShape, NothingShape]"]) (simp_all add: tr mp vm)
  have st: "stable example_host True True ?S (JObj ?es)"
    by (rule stable.struct[where es = ?es and nm = "''T''" and Fields = ?F])
       (simp_all add: s1 s2 s3 s4 s6 s7 tr mp js vm cn own_entries_def reduce_spread_def obj_assign_def
          string_mapper_def array_mapper_def array_map_def union_mapper_def optional_mapper_def
          map_mapper_def entries_map_def bool_mapper_def assign_prop_def json_typed_mapper_def
          assertIsType_def ev union_is_instance_def)
  have ac: "accepts ?S (JObj ?es)"
    by (simp add: ev reduce_spread1_def obj_assign_def struct_is_instance_def array_is_instance_def
          isArray_def elems_def union_is_instance_def js_get_def own_entries_def
          literal_is_instance_def map_is_instance_def js_strict_eq_def)
  have su: "supported example_host True True ?S"
    by (simp add: supported_def mp js vm reduce_spread1_def reduce_spread_def obj_assign_def
          json_typed_mapper_def)
  from round_trip_stable[OF st ac su] st ac su show ?thesis by simp
qed

end
